theory Spec2Isabelle
  imports Main "HOL-Library.Multiset" "HOL-Library.AList"
begin

section \<open>Strings, JavaScript values and objects\<close>

text \<open>
  The program under verification is \<^verbatim>\<open>UELogParser.js\<close>. A JavaScript string is modelled as a
  \<^typ>\<open>string\<close>; each \<^typ>\<open>char\<close> stands for one UTF-16 code unit in the range U+0000 to U+00FF,
  so the model covers Latin-1 texts. In that range the line terminators of the regular
  expression dot are LF and CR, the class \<^verbatim>\<open>\s\<close> (which is also what \<^verbatim>\<open>trim\<close> removes)
  is TAB, LF, VT, FF, CR, SPACE and NBSP, and the class \<^verbatim>\<open>\w\<close> is the ASCII letters and
  digits and the underscore.
\<close>

definition isLineTerminator :: "char \<Rightarrow> bool" where
  "isLineTerminator c = (c = CHR 0x0A \<or> c = CHR 0x0D)"

definition isWhiteSpace :: "char \<Rightarrow> bool" where
  "isWhiteSpace c =
     (c \<in> set [CHR 0x09, CHR 0x0A, CHR 0x0B, CHR 0x0C, CHR 0x0D, CHR 0x20, CHR 0xA0])"

definition isWordChar :: "char \<Rightarrow> bool" where
  "isWordChar c =
     (let n = (of_char c :: nat)
      in (48 \<le> n \<and> n \<le> 57) \<or> (65 \<le> n \<and> n \<le> 90) \<or> n = 95 \<or> (97 \<le> n \<and> n \<le> 122))"

definition trim :: "string \<Rightarrow> string" where
  "trim s = rev (dropWhile isWhiteSpace (rev (dropWhile isWhiteSpace s)))"

definition toLowerChar :: "char \<Rightarrow> char" where
  "toLowerChar c =
     (let n = (of_char c :: nat)
      in if (65 \<le> n \<and> n \<le> 90) \<or> (192 \<le> n \<and> n \<le> 222 \<and> n \<noteq> 215)
         then char_of (n + 32) else c)"

definition toLowerCase :: "string \<Rightarrow> string" where
  "toLowerCase s = map toLowerChar s"

text \<open>
  The one value of the program that is not always a number is the stray property
  \<^verbatim>\<open>logInfo.general\<close>: it starts undefined, and \<^verbatim>\<open>undefined++\<close> stores NaN.
\<close>

datatype jsvalue = Undefined | NaN | Number nat

fun postIncrement :: "jsvalue \<Rightarrow> jsvalue" where
  "postIncrement Undefined = NaN"
| "postIncrement NaN = NaN"
| "postIncrement (Number n) = Number (n + 1)"

text \<open>
  A plain object used as a dictionary is an association list of its own properties in
  the order in which \<^verbatim>\<open>Object.keys\<close> and \<^verbatim>\<open>Object.entries\<close> enumerate them: first the keys
  that are array indices (the decimal numerals without leading zero below 4294967295) in
  ascending numeric order, then the other keys in the order of their creation. Such
  numerals are compared by their length and then digit by digit, which is their numeric
  order. An assignment
  \<^verbatim>\<open>obj[k] = v\<close> overwrites an own property in place and creates a new one at its place in
  that order, except for the key \<^verbatim>\<open>__proto__\<close>: there the inherited setter runs, and with a
  number or a string as value it changes nothing. \<^verbatim>\<open>obj[k]++\<close> is only ever executed by the
  program on an own property that holds a number.
\<close>

type_synonym 'v jsobject = "(string \<times> 'v) list"

definition ownKeys :: "'v jsobject \<Rightarrow> string list" where
  "ownKeys obj = map fst obj"

definition isDigit :: "char \<Rightarrow> bool" where
  "isDigit c = (48 \<le> (of_char c :: nat) \<and> (of_char c :: nat) \<le> 57)"

fun digitsLess :: "string \<Rightarrow> string \<Rightarrow> bool" where
  "digitsLess (a # as) (b # bs) =
     (if a = b then digitsLess as bs else (of_char a :: nat) < (of_char b :: nat))"
| "digitsLess as bs = False"

definition numeralLess :: "string \<Rightarrow> string \<Rightarrow> bool" where
  "numeralLess a b = (if length a = length b then digitsLess a b else length a < length b)"

definition isArrayIndex :: "string \<Rightarrow> bool" where
  "isArrayIndex k =
     (if k = [] then False
      else if list_all isDigit k
      then (if hd k = CHR ''0'' then k = ''0'' else numeralLess k ''4294967295'')
      else False)"

fun insertIndexKey :: "string \<Rightarrow> 'v \<Rightarrow> 'v jsobject \<Rightarrow> 'v jsobject" where
  "insertIndexKey k v [] = [(k, v)]"
| "insertIndexKey k v (p # ps) =
     (if isArrayIndex (fst p) \<and> numeralLess (fst p) k
      then p # insertIndexKey k v ps
      else (k, v) # p # ps)"

definition assignProp :: "string \<Rightarrow> 'v \<Rightarrow> 'v jsobject \<Rightarrow> 'v jsobject" where
  "assignProp k v obj =
     (if k = ''__proto__'' then obj
      else if k \<in> set (ownKeys obj) then AList.update k v obj
      else if isArrayIndex k then insertIndexKey k v obj
      else obj @ [(k, v)])"

definition incrProp :: "string \<Rightarrow> nat jsobject \<Rightarrow> nat jsobject" where
  "incrProp k obj = AList.map_entry k (\<lambda>n. n + 1) obj"

datatype error = TypeError | ReferenceError | ENOENT string

text \<open>
  Of the functions of the logger, \<^verbatim>\<open>empty\<close>, \<^verbatim>\<open>header\<close>, \<^verbatim>\<open>log\<close>, \<^verbatim>\<open>debug\<close> and \<^verbatim>\<open>warn\<close> only
  print. \<^verbatim>\<open>logger.error\<close> has the one parameter \<^verbatim>\<open>text\<close> and ends with the test
  \<^verbatim>\<open>if(printToConsole)\<close>; the name \<^verbatim>\<open>printToConsole\<close> is bound nowhere in its scope, so every
  call of \<^verbatim>\<open>logger.error\<close> throws a ReferenceError.
\<close>

definition loggerError :: "string \<Rightarrow> error + unit" where
  "loggerError message = Inl ReferenceError"

text \<open>
  \<^verbatim>\<open>Array.prototype.findIndex\<close>; \<^const>\<open>None\<close> stands for the result -1.
  \<^verbatim>\<open>Array.prototype.reduce\<close> without an initial value throws a TypeError on an empty array.
\<close>

fun findIndex :: "('a \<Rightarrow> bool) \<Rightarrow> 'a list \<Rightarrow> nat option" where
  "findIndex P [] = None"
| "findIndex P (x # xs) = (if P x then Some 0 else map_option Suc (findIndex P xs))"

definition reduceNoInit :: "('a \<Rightarrow> 'a \<Rightarrow> 'a) \<Rightarrow> 'a list \<Rightarrow> error + 'a" where
  "reduceNoInit f xs = (case xs of [] \<Rightarrow> Inl TypeError | x # rest \<Rightarrow> Inr (foldl f x rest))"

section \<open>Data model\<close>

record LogObject =
  category :: "string option"
  type :: "string option"
  message :: "string option"
  logText :: string
  count :: nat
  siblings :: "string list"

record LogInfo =
  totalCount :: nat
  uniqueList :: "LogObject list"
  categories :: "nat jsobject"
  typeCounts :: "nat jsobject"
  general :: jsvalue
  sourceFile :: "string option"

text \<open>The global \<^verbatim>\<open>logData\<close> is a report with the list of the per-file reports added.\<close>

record LogData = LogInfo +
  dataList :: "LogInfo list"

definition initialLogData :: LogData where
  "initialLogData =
     \<lparr> totalCount = 0, uniqueList = [], categories = [],
       typeCounts = [(''errors'', 0), (''warnings'', 0), (''verbose'', 0), (''general'', 0)],
       general = Undefined, sourceFile = None, dataList = [] \<rparr>"

text \<open>
  Of \<^verbatim>\<open>UELogParserSettings.json\<close>, which is not part of the sources, the model takes the
  options that steer the data flow as a parameter. The options \<^verbatim>\<open>debug\<close>, \<^verbatim>\<open>writeToFile\<close>,
  \<^verbatim>\<open>summarize\<close> and \<^verbatim>\<open>logList\<close> only select what is printed.
\<close>

record FilterSettings =
  ignore :: bool
  allowUndefined :: bool
  whitelist :: "string list"
  blacklist :: "string list"

record Settings =
  consolidate :: bool
  directory :: string
  folderPath :: string
  typeFilter :: FilterSettings
  categoryFilter :: FilterSettings

section \<open>Line extractor: \<^verbatim>\<open>input.match(/Log.*:.*/gm)\<close>\<close>

text \<open>
  The pattern has no anchor, so it is tried at every position from the left. At a position
  it matches when the text there starts with \<^verbatim>\<open>Log\<close> and a colon follows before the next line
  terminator; the last \<^verbatim>\<open>.*\<close> is greedy, so the match always runs to the end of the line.
  With the flag \<^verbatim>\<open>g\<close> the search resumes where the match ended, and \<^verbatim>\<open>match\<close> returns
  \<^verbatim>\<open>null\<close> (here \<^const>\<open>None\<close>) when there is no match at all.
\<close>

definition matchLogRegexAt :: "string \<Rightarrow> string option" where
  "matchLogRegexAt s =
     (if take 3 s = ''Log'' \<and> CHR '':'' \<in> set (takeWhile (\<lambda>c. \<not> isLineTerminator c) (drop 3 s))
      then Some (takeWhile (\<lambda>c. \<not> isLineTerminator c) s)
      else None)"

function matchAll :: "string \<Rightarrow> string list" where
  "matchAll [] = []"
| "matchAll (c # cs) =
     (case matchLogRegexAt (c # cs) of
        Some m \<Rightarrow> m # matchAll (drop (length m) (c # cs))
      | None \<Rightarrow> matchAll cs)"
  by pat_completeness auto
termination
proof (relation "measure length")
  fix c cs m
  assume "matchLogRegexAt (c # cs) = Some m"
  then have "m = takeWhile (\<lambda>c. \<not> isLineTerminator c) (c # cs)" and "take 3 (c # cs) = ''Log''"
    by (auto simp: matchLogRegexAt_def split: if_splits)
  then have "m \<noteq> []"
    by (auto simp: isLineTerminator_def)
  then show "(drop (length m) (c # cs), c # cs) \<in> measure length"
    by (cases m) auto
qed auto

definition matchLogRegex :: "string \<Rightarrow> string list option" where
  "matchLogRegex input = (case matchAll input of [] \<Rightarrow> None | m # ms \<Rightarrow> Some (m # ms))"

section \<open>Line decomposer: \<^verbatim>\<open>logString.match(parseRegex)?.groups\<close>\<close>

text \<open>
  The pattern is
  \<^verbatim>\<open>(?:Log(?<logCategory>[^:]+)):{1}\s*(?:(?<type>[^:-\s]*):{1}(?!:)\s*)?(?<message>.*)\<close>.
  At a position it needs \<^verbatim>\<open>Log\<close>, then at least one character other than a colon up to the
  first colon (the category). After that colon and the white space behind it, the optional
  group matches when the longest run of characters outside \<^verbatim>\<open>[:-\s]\<close> (a colon, a hyphen or
  white space) is directly followed by a single colon that is not followed by another; the
  run is the type. The message is the rest of the line. The result is a triple of the three
  named groups, the type being \<^const>\<open>None\<close> when the optional group did not take part.
\<close>

definition isTypeChar :: "char \<Rightarrow> bool" where
  "isTypeChar c = (c \<noteq> CHR '':'' \<and> c \<noteq> CHR ''-'' \<and> \<not> isWhiteSpace c)"

definition parseRegexAt :: "string \<Rightarrow> (string \<times> string option \<times> string) option" where
  "parseRegexAt s =
     (if take 3 s = ''Log'' then
        (let logCategory = takeWhile (\<lambda>c. c \<noteq> CHR '':'') (drop 3 s);
             r0 = drop (3 + length logCategory) s
         in if logCategory = [] \<or> r0 = [] then None
            else
              (let r1 = dropWhile isWhiteSpace (tl r0);
                   t = takeWhile isTypeChar r1;
                   r2 = drop (length t) r1
               in if take 1 r2 = '':'' \<and> take 2 r2 \<noteq> ''::''
                  then Some (logCategory, Some t,
                         takeWhile (\<lambda>c. \<not> isLineTerminator c) (dropWhile isWhiteSpace (tl r2)))
                  else Some (logCategory, None, takeWhile (\<lambda>c. \<not> isLineTerminator c) r1)))
      else None)"

fun parseRegexExec :: "string \<Rightarrow> (string \<times> string option \<times> string) option" where
  "parseRegexExec [] = None"
| "parseRegexExec (c # cs) =
     (case parseRegexAt (c # cs) of Some g \<Rightarrow> Some g | None \<Rightarrow> parseRegexExec cs)"

text \<open>The body of the loop of \<^verbatim>\<open>parseText\<close>: one candidate line becomes one record.\<close>

definition parseLine :: "string \<Rightarrow> LogObject" where
  "parseLine logString =
     (case parseRegexExec logString of
        None \<Rightarrow>
          \<lparr> category = None, type = None, message = None,
            logText = logString, count = 1, siblings = [] \<rparr>
      | Some (logCategory, t, msg) \<Rightarrow>
          \<lparr> category = Some (trim logCategory), type = map_option trim t,
            message = Some (trim msg), logText = logString, count = 1, siblings = [] \<rparr>)"

section \<open>Aggregation: \<^verbatim>\<open>processParsedLog\<close>\<close>

text \<open>
  \<^verbatim>\<open>data.logText.replace(/\[[^\[\]]*\]\[[^\[\]]*\]\s*(?=Log)/, "")\<close> removes the leftmost
  occurrence of two bracketed groups and white space that stand directly before \<^verbatim>\<open>Log\<close>.
  \<open>bracketGroup\<close> consumes one group \<^verbatim>\<open>\[[^\[\]]*\]\<close> at the start of a text and returns what
  follows it; \<open>prefixRegexAt\<close> returns what follows a match of the whole pattern.
\<close>

definition bracketGroup :: "string \<Rightarrow> string option" where
  "bracketGroup s =
     (case s of
        [] \<Rightarrow> None
      | c # cs \<Rightarrow>
          if c = CHR ''[''
          then (case dropWhile (\<lambda>x. x \<noteq> CHR ''['' \<and> x \<noteq> CHR '']'') cs of
                  [] \<Rightarrow> None
                | d # ds \<Rightarrow> if d = CHR '']'' then Some ds else None)
          else None)"

definition prefixRegexAt :: "string \<Rightarrow> string option" where
  "prefixRegexAt s =
     (case bracketGroup s of
        None \<Rightarrow> None
      | Some r1 \<Rightarrow>
          (case bracketGroup r1 of
             None \<Rightarrow> None
           | Some r2 \<Rightarrow>
               (let r3 = dropWhile isWhiteSpace r2
                in if take 3 r3 = ''Log'' then Some r3 else None)))"

fun replacePrefix :: "string \<Rightarrow> string" where
  "replacePrefix [] = []"
| "replacePrefix (c # cs) =
     (case prefixRegexAt (c # cs) of Some r \<Rightarrow> r | None \<Rightarrow> c # replacePrefix cs)"

text \<open>
  The first half of the loop body (lines 208 to 215): look the incoming record up among the
  unique entries, comparing each stored text with the prefix removed to the incoming text as
  it is; append the record, or count it on the entry found.
\<close>

definition foldUnique :: "LogObject \<Rightarrow> LogObject list \<Rightarrow> LogObject list" where
  "foldUnique info ul =
     (case findIndex (\<lambda>data. replacePrefix (logText data) = logText info) ul of
        None \<Rightarrow> ul @ [info]
      | Some firstIndex \<Rightarrow>
          ul[firstIndex := (ul ! firstIndex)
               \<lparr> count := count (ul ! firstIndex) + 1,
                 siblings := siblings (ul ! firstIndex) @ [logText info] \<rparr>])"

text \<open>
  The second half (lines 217 to 225). An absent category and the empty category are both
  falsy; for them the code increments \<^verbatim>\<open>logInfo.general\<close>, a property of the report itself.
\<close>

definition foldCategory :: "LogObject \<Rightarrow> nat jsobject \<times> jsvalue \<Rightarrow> nat jsobject \<times> jsvalue" where
  "foldCategory info cg =
     (case category info of
        None \<Rightarrow> (fst cg, postIncrement (snd cg))
      | Some c \<Rightarrow>
          if c \<in> set (ownKeys (fst cg)) then (incrProp c (fst cg), snd cg)
          else if c \<noteq> [] then (assignProp c 1 (fst cg), snd cg)
          else (fst cg, postIncrement (snd cg)))"

text \<open>
  The end of the loop body (lines 227 to 231) validates the type: a truthy type that does
  not match \<^verbatim>\<open>/^[\w\s]*$/\<close>, that is, one with a character that is neither a word character
  nor white space, is reported with \<^verbatim>\<open>logger.error\<close>. That call throws, which ends the loop
  and the whole run.
\<close>

definition typeInvalid :: "LogObject \<Rightarrow> bool" where
  "typeInvalid info =
     (case type info of
        None \<Rightarrow> False
      | Some t \<Rightarrow>
          if t = [] then False
          else if list_all (\<lambda>c. isWordChar c \<or> isWhiteSpace c) t then False
          else True)"

fun processLoop :: "LogObject list \<Rightarrow> 'a LogInfo_scheme \<Rightarrow> error + 'a LogInfo_scheme" where
  "processLoop [] logInfo = Inr logInfo"
| "processLoop (info # rest) logInfo =
     (let cg = foldCategory info (categories logInfo, general logInfo);
          logInfo' = logInfo \<lparr> uniqueList := foldUnique info (uniqueList logInfo),
                               categories := fst cg, general := snd cg \<rparr>
      in if typeInvalid info
         then (case loggerError (logText info) of
                 Inl e \<Rightarrow> Inl e
               | Inr u \<Rightarrow> processLoop rest logInfo')
         else processLoop rest logInfo')"

text \<open>
  The tally of the types over the unique entries (lines 234 to 250). The chain of
  conditions has no final \<^verbatim>\<open>else\<close>: an entry whose type is absent or empty changes nothing.
\<close>

definition tallyType :: "LogObject \<Rightarrow> nat jsobject \<Rightarrow> nat jsobject" where
  "tallyType info tc =
     (case type info of
        None \<Rightarrow> tc
      | Some t \<Rightarrow>
          if t = ''Error'' then incrProp ''errors'' tc
          else if t = ''Warning'' then incrProp ''warnings'' tc
          else if t \<noteq> [] then
            (let modifiedType = toLowerCase (trim t)
             in if modifiedType \<in> set (ownKeys tc) then incrProp modifiedType tc
                else assignProp modifiedType 1 tc)
          else tc)"

fun tallyLoop :: "LogObject list \<Rightarrow> nat jsobject \<Rightarrow> nat jsobject" where
  "tallyLoop [] tc = tc"
| "tallyLoop (info # rest) tc = tallyLoop rest (tallyType info tc)"

definition newLogInfo :: "nat \<Rightarrow> LogInfo" where
  "newLogInfo n =
     \<lparr> totalCount = n, uniqueList = [], categories = [(''general'', 0)],
       typeCounts = [(''general'', 0), (''verbose'', 0), (''warnings'', 0), (''errors'', 0)],
       general = Undefined, sourceFile = None \<rparr>"

text \<open>
  \<^verbatim>\<open>processParsedLog\<close> returns the report and the new global state, or the error thrown in
  its first loop. When consolidating, the report is the global \<^verbatim>\<open>logData\<close> itself; otherwise
  it is a fresh report, which is appended to \<^verbatim>\<open>logData.dataList\<close> and then given its
  \<^verbatim>\<open>sourceFile\<close> (when the name is truthy).
\<close>

definition processParsedLog ::
  "Settings \<Rightarrow> LogObject list \<Rightarrow> string option \<Rightarrow> LogData \<Rightarrow> error + (LogInfo \<times> LogData)" where
  "processParsedLog settings matchArray fileName logData =
     (if consolidate settings then
        (case processLoop matchArray
                (logData \<lparr> totalCount := totalCount logData + length matchArray \<rparr>) of
           Inl e \<Rightarrow> Inl e
         | Inr l1 \<Rightarrow>
             (let l2 = l1 \<lparr> typeCounts := tallyLoop (uniqueList l1) (typeCounts l1) \<rparr>
              in Inr (LogInfo.truncate l2, l2)))
      else
        (case processLoop matchArray (newLogInfo (length matchArray)) of
           Inl e \<Rightarrow> Inl e
         | Inr l1 \<Rightarrow>
             (let l2 = l1 \<lparr> typeCounts := tallyLoop (uniqueList l1) (typeCounts l1) \<rparr>;
                  l3 = (if fileName = None \<or> fileName = Some [] then l2
                        else l2 \<lparr> sourceFile := fileName \<rparr>)
              in Inr (l3, logData \<lparr> dataList := dataList logData @ [l3] \<rparr>))))"

text \<open>
  \<^verbatim>\<open>parseText\<close>: the length of the result of \<^verbatim>\<open>match\<close> is read without a test for \<^verbatim>\<open>null\<close>,
  which throws a TypeError. The warnings and the summary it prints do not touch the data;
  the summary reduces the unique list without initial value, which is not empty there.
\<close>

definition parseText ::
  "Settings \<Rightarrow> string \<Rightarrow> string option \<Rightarrow> LogData \<Rightarrow> error + (LogInfo \<times> LogData)" where
  "parseText settings input fileName logData =
     (case matchLogRegex input of
        None \<Rightarrow> Inl TypeError
      | Some matchArray \<Rightarrow>
          processParsedLog settings (map parseLine matchArray) fileName logData)"

section \<open>Sorting: \<^verbatim>\<open>sortLogsByCount\<close>\<close>

text \<open>
  The sorter first groups the entries by their count: \<^verbatim>\<open>numberArray\<close> lists the distinct
  counts in the order of first appearance and \<^verbatim>\<open>countMap\<close> maps a count to its entries. A
  count that is in \<^verbatim>\<open>numberArray\<close> is always a key of \<^verbatim>\<open>countMap\<close>; a lookup that found
  nothing would make the source fail, and the model gives that case a TypeError.
\<close>

fun groupLoop ::
  "LogObject list \<Rightarrow> nat list \<times> (nat \<rightharpoonup> LogObject list) \<Rightarrow>
   error + (nat list \<times> (nat \<rightharpoonup> LogObject list))" where
  "groupLoop [] acc = Inr acc"
| "groupLoop (log # rest) (numberArray, countMap) =
     (if count log \<notin> set numberArray
      then groupLoop rest (numberArray @ [count log], countMap(count log \<mapsto> [log]))
      else (case countMap (count log) of
              None \<Rightarrow> Inl TypeError
            | Some bucket \<Rightarrow>
                groupLoop rest (numberArray, countMap(count log \<mapsto> bucket @ [log]))))"

text \<open>
  The debug string joins the counts with commas; it is computed by a \<^verbatim>\<open>reduce\<close> without
  initial value before the debug setting is looked at.
\<close>

fun decimal :: "nat \<Rightarrow> string" where
  "decimal n =
     (if n < 10 then [char_of (48 + n)]
      else decimal (n div 10) @ [char_of (48 + n mod 10)])"

declare decimal.simps [simp del]

definition debugString :: "LogObject list \<Rightarrow> error + string" where
  "debugString logs =
     reduceNoInit (\<lambda>aggr item. aggr @ '','' @ item) (map (\<lambda>item. decimal (count item)) logs)"

text \<open>
  The quicksort works in place on \<^verbatim>\<open>numberArray\<close>, with indices that may become -1; the
  array is a list that each function returns updated. The destructuring assignment
  \<^verbatim>\<open>[list[i], list[j]] = [list[j], list[i]]\<close> reads both elements and then writes them.
  The comparer is the default \<^verbatim>\<open>a <= b\<close> on numbers.
\<close>

definition swap :: "nat list \<Rightarrow> int \<Rightarrow> int \<Rightarrow> nat list" where
  "swap list i j = (list[nat i := list ! nat j])[nat j := list ! nat i]"

function partitionLoop :: "nat list \<Rightarrow> nat \<Rightarrow> int \<Rightarrow> int \<Rightarrow> int \<Rightarrow> nat list \<times> int" where
  "partitionLoop list pivot idx endIdx pIndex =
     (if idx < endIdx then
        (if list ! nat idx \<le> pivot
         then partitionLoop (swap list idx pIndex) pivot (idx + 1) endIdx (pIndex + 1)
         else partitionLoop list pivot (idx + 1) endIdx pIndex)
      else (list, pIndex))"
  by pat_completeness auto
termination
  by (relation "measure (\<lambda>(list, pivot, idx, endIdx, pIndex). nat (endIdx - idx))") auto

declare partitionLoop.simps [simp del]

definition partition_js :: "nat list \<Rightarrow> int \<Rightarrow> int \<Rightarrow> nat list \<times> int" where
  "partition_js list start endIdx =
     (case partitionLoop list (list ! nat endIdx) start endIdx start of
        (list', pIndex) \<Rightarrow> (swap list' pIndex endIdx, pIndex))"

lemma partitionLoop_bounds:
  "partitionLoop list pivot idx endIdx pIndex = (list', p) \<Longrightarrow> idx \<le> endIdx \<Longrightarrow>
   pIndex \<le> p \<and> p - pIndex \<le> endIdx - idx"
proof (induction list pivot idx endIdx pIndex arbitrary: list' p rule: partitionLoop.induct)
  case (1 list pivot idx endIdx pIndex)
  show ?case
  proof (cases "idx < endIdx")
    case False
    with "1.prems" show ?thesis
      by (simp add: partitionLoop.simps [of list pivot idx endIdx pIndex])
  next
    case less: True
    show ?thesis
    proof (cases "list ! nat idx \<le> pivot")
      case True
      with less "1.prems"
      have "partitionLoop (swap list idx pIndex) pivot (idx + 1) endIdx (pIndex + 1) = (list', p)"
        by (simp add: partitionLoop.simps [of list pivot idx endIdx pIndex])
      from "1.IH"(1) [OF less True this] less show ?thesis by simp
    next
      case False
      with less "1.prems"
      have "partitionLoop list pivot (idx + 1) endIdx pIndex = (list', p)"
        by (simp add: partitionLoop.simps [of list pivot idx endIdx pIndex])
      from "1.IH"(2) [OF less False this] less show ?thesis by simp
    qed
  qed
qed

lemma partition_js_bounds:
  "partition_js list start endIdx = (list', p) \<Longrightarrow> start \<le> endIdx \<Longrightarrow> start \<le> p \<and> p \<le> endIdx"
  by (auto simp: partition_js_def split: prod.splits dest!: partitionLoop_bounds)

function quickSort :: "nat list \<Rightarrow> int \<Rightarrow> int \<Rightarrow> nat list" where
  "quickSort list start endIdx =
     (if start \<ge> endIdx then list
      else (case partition_js list start endIdx of
              (list1, pivotIndex) \<Rightarrow>
                quickSort (quickSort list1 start (pivotIndex - 1)) (pivotIndex + 1) endIdx))"
  by pat_completeness auto
termination
  apply (relation "measure (\<lambda>(list, start, endIdx). nat (endIdx - start))")
    apply simp
  subgoal premises p for list start endIdx list1 pivotIndex
    using p partition_js_bounds [of list start endIdx list1 pivotIndex] by simp
  subgoal premises p for list start endIdx list1 pivotIndex
    using p partition_js_bounds [of list start endIdx list1 pivotIndex] by simp
  done

declare quickSort.simps [simp del]

fun concatLoop ::
  "nat list \<Rightarrow> (nat \<rightharpoonup> LogObject list) \<Rightarrow> LogObject list \<Rightarrow> error + LogObject list" where
  "concatLoop [] countMap newArray = Inr newArray"
| "concatLoop (c # rest) countMap newArray =
     (case countMap c of
        None \<Rightarrow> Inl TypeError
      | Some bucket \<Rightarrow> concatLoop rest countMap (newArray @ bucket))"

text \<open>
  The validation loop at the end of the function only counts and prints, so the function
  is: group, build the debug string, sort the counts, concatenate the buckets, build the
  debug string again.
\<close>

definition sortLogsByCount :: "LogObject list \<Rightarrow> error + LogObject list" where
  "sortLogsByCount logs =
     (case groupLoop logs ([], Map.empty) of
        Inl e \<Rightarrow> Inl e
      | Inr (numberArray, countMap) \<Rightarrow>
          (case debugString logs of
             Inl e \<Rightarrow> Inl e
           | Inr d1 \<Rightarrow>
               (case concatLoop (quickSort numberArray 0 (int (length numberArray) - 1))
                       countMap [] of
                  Inl e \<Rightarrow> Inl e
                | Inr newArray \<Rightarrow>
                    (case debugString logs of
                       Inl e \<Rightarrow> Inl e
                     | Inr d2 \<Rightarrow> Inr newArray))))"

section \<open>Filtering: \<^verbatim>\<open>filterLog\<close> and \<^verbatim>\<open>filterLogList\<close>\<close>

text \<open>
  \<^verbatim>\<open>filterLog\<close> answers whether a record is to be left out. For one field: nothing is left
  out when the filter is ignored; an absent value is left out when it is not allowed, and
  also when it is, since \<^verbatim>\<open>whitelist.includes(undefined)\<close> is false; a present value is left
  out when it is not on the whitelist or is on the blacklist.
\<close>

definition fieldFiltered :: "FilterSettings \<Rightarrow> string option \<Rightarrow> bool" where
  "fieldFiltered f v =
     (if ignore f then False
      else if v = None \<and> \<not> allowUndefined f then True
      else (case v of
              None \<Rightarrow> True
            | Some x \<Rightarrow> (if x \<in> set (whitelist f) then x \<in> set (blacklist f) else True)))"

definition filterLog :: "Settings \<Rightarrow> LogObject \<Rightarrow> bool" where
  "filterLog settings log =
     (if fieldFiltered (typeFilter settings) (type log) then True
      else fieldFiltered (categoryFilter settings) (category log))"

text \<open>
  The filtered report. Its category tally (lines 474 and 475) tests and adds to
  \<^verbatim>\<open>newInfo.categories[log.category]\<close> through the prototype chain, which for an inherited
  name yields text that the language leaves to the implementation; it is not part of the
  model. In the branch for the other types the code names \<^verbatim>\<open>logInfo\<close>, which is bound
  neither in the function nor globally: evaluating it throws a ReferenceError.
\<close>

record FilteredInfo =
  filteredTotalCount :: nat
  filteredUniqueList :: "LogObject list"
  filteredTypeCounts :: "nat jsobject"

definition newFilteredInfo :: FilteredInfo where
  "newFilteredInfo =
     \<lparr> filteredTotalCount = 0, filteredUniqueList = [],
       filteredTypeCounts = [(''errors'', 0), (''warnings'', 0), (''verbose'', 0), (''general'', 0)] \<rparr>"

fun filterLoop :: "Settings \<Rightarrow> LogObject list \<Rightarrow> FilteredInfo \<Rightarrow> error + FilteredInfo" where
  "filterLoop settings [] newInfo = Inr newInfo"
| "filterLoop settings (log # rest) newInfo =
     (if filterLog settings log then filterLoop settings rest newInfo
      else
        (let n1 = newInfo \<lparr> filteredUniqueList := filteredUniqueList newInfo @ [log],
                            filteredTotalCount := filteredTotalCount newInfo + count log \<rparr>
         in case type log of
              None \<Rightarrow> filterLoop settings rest n1
            | Some t \<Rightarrow>
                if t = ''Error''
                then filterLoop settings rest
                       (n1 \<lparr> filteredTypeCounts := incrProp ''errors'' (filteredTypeCounts n1) \<rparr>)
                else if t = ''Warning''
                then filterLoop settings rest
                       (n1 \<lparr> filteredTypeCounts := incrProp ''warnings'' (filteredTypeCounts n1) \<rparr>)
                else if t \<noteq> [] then Inl ReferenceError
                else filterLoop settings rest n1))"

definition filterLogList :: "Settings \<Rightarrow> LogObject list \<Rightarrow> error + FilteredInfo" where
  "filterLogList settings logList = filterLoop settings logList newFilteredInfo"

section \<open>The run: \<^verbatim>\<open>loadText\<close> and \<^verbatim>\<open>run\<close>\<close>

text \<open>
  The file system is a parameter: the directory of the script and a map from the paths of
  the readable files to their texts. \<^verbatim>\<open>getPathToFile\<close> returns \<^verbatim>\<open>undefined\<close> for a directory
  setting other than the two it knows; \<^verbatim>\<open>readFileSync\<close> throws for it and for a path that is
  not there.
\<close>

record World =
  dirname :: string
  files :: "string \<rightharpoonup> string"

definition getPathToFile :: "Settings \<Rightarrow> World \<Rightarrow> string \<Rightarrow> string option" where
  "getPathToFile settings world fileName =
     (if directory settings = ''local'' then Some (dirname world @ [CHR 0x5C] @ fileName)
      else if directory settings = ''folder'' then Some (folderPath settings @ [CHR 0x5C] @ fileName)
      else None)"

definition readFileSync :: "World \<Rightarrow> string option \<Rightarrow> error + string" where
  "readFileSync world path =
     (case path of
        None \<Rightarrow> Inl TypeError
      | Some p \<Rightarrow> (case files world p of None \<Rightarrow> Inl (ENOENT p) | Some content \<Rightarrow> Inr content))"

definition existsSync :: "World \<Rightarrow> string option \<Rightarrow> bool" where
  "existsSync world path =
     (case path of None \<Rightarrow> False | Some p \<Rightarrow> (case files world p of None \<Rightarrow> False | Some content \<Rightarrow> True))"

fun loadText :: "Settings \<Rightarrow> World \<Rightarrow> string list \<Rightarrow> string jsobject \<Rightarrow> error + string jsobject" where
  "loadText settings world [] textContent = Inr textContent"
| "loadText settings world (fileName # rest) textContent =
     (case readFileSync world (getPathToFile settings world fileName) of
        Inl e \<Rightarrow> Inl e
      | Inr content \<Rightarrow> loadText settings world rest (assignProp fileName content textContent))"

text \<open>
  Of what the logger prints, the model keeps the warning of \<^verbatim>\<open>run\<close> for an empty file list.
  The loop that parses the files reads \<^verbatim>\<open>textContent[fileName]\<close>; where that is not an own
  property the value is no string, and calling its \<^verbatim>\<open>match\<close> throws a TypeError. For a
  path that does not exist the loop calls \<^verbatim>\<open>logger.error\<close>, which throws.
\<close>

datatype diagnostic = NoFilesFound

fun parseLoop ::
  "Settings \<Rightarrow> World \<Rightarrow> string jsobject \<Rightarrow> string list \<Rightarrow> LogData \<Rightarrow> error + LogData" where
  "parseLoop settings world textContent [] logData = Inr logData"
| "parseLoop settings world textContent (fileName # rest) logData =
     (if existsSync world (getPathToFile settings world fileName) then
        (case map_of textContent fileName of
           None \<Rightarrow> Inl TypeError
         | Some input \<Rightarrow>
             (case parseText settings input (Some fileName) logData of
                Inl e \<Rightarrow> Inl e
              | Inr r \<Rightarrow> parseLoop settings world textContent rest (snd r)))
      else
        (case loggerError fileName of
           Inl e \<Rightarrow> Inl e
         | Inr u \<Rightarrow> parseLoop settings world textContent rest logData))"

fun sortDataList :: "LogInfo list \<Rightarrow> error + LogInfo list" where
  "sortDataList [] = Inr []"
| "sortDataList (data # rest) =
     (case sortLogsByCount (uniqueList data) of
        Inl e \<Rightarrow> Inl e
      | Inr newArray \<Rightarrow>
          (case sortDataList rest of
             Inl e \<Rightarrow> Inl e
           | Inr rest' \<Rightarrow> Inr (data \<lparr> uniqueList := newArray \<rparr> # rest')))"

record RunResult =
  finalData :: LogData
  report :: "FilteredInfo option"
  diagnostics :: "diagnostic list"

text \<open>
  \<^verbatim>\<open>run\<close>: all files are loaded first, then parsed one by one, then the unique lists are
  sorted; in the consolidated mode the filtered report is built from the sorted list. What
  follows in the source only prints.
\<close>

definition run :: "Settings \<Rightarrow> World \<Rightarrow> string list \<Rightarrow> LogData \<Rightarrow> error + RunResult" where
  "run settings world fileList logData =
     (if fileList = [] then
        Inr \<lparr> finalData = logData, report = None, diagnostics = [NoFilesFound] \<rparr>
      else
        (case loadText settings world fileList [] of
           Inl e \<Rightarrow> Inl e
         | Inr textContent \<Rightarrow>
             (case parseLoop settings world textContent fileList logData of
                Inl e \<Rightarrow> Inl e
              | Inr parsed \<Rightarrow>
                  if consolidate settings then
                    (case sortLogsByCount (uniqueList parsed) of
                       Inl e \<Rightarrow> Inl e
                     | Inr newArray \<Rightarrow>
                         (case filterLogList settings newArray of
                            Inl e \<Rightarrow> Inl e
                          | Inr data \<Rightarrow>
                              Inr \<lparr> finalData = parsed \<lparr> uniqueList := newArray \<rparr>,
                                    report = Some data, diagnostics = [] \<rparr>))
                  else
                    (case sortDataList (dataList parsed) of
                       Inl e \<Rightarrow> Inl e
                     | Inr sortedList \<Rightarrow>
                         Inr \<lparr> finalData = parsed \<lparr> dataList := sortedList \<rparr>,
                               report = None, diagnostics = [] \<rparr>))))"

section \<open>Notions used in the statements\<close>

text \<open>
  The invariant of a unique entry: its count is one more than the number of its siblings.
\<close>

definition countInvariant :: "LogObject \<Rightarrow> bool" where
  "countInvariant e = (count e = 1 + length (siblings e))"

text \<open>A record as \<^verbatim>\<open>parseText\<close> builds it for a line with the text \<open>t\<close>.\<close>

definition freshWithText :: "string \<Rightarrow> LogObject \<Rightarrow> bool" where
  "freshWithText t m = (logText m = t \<and> count m = 1 \<and> siblings m = [])"

text \<open>Whether a text contains the marker \<^verbatim>\<open>Log\<close> somewhere.\<close>

fun containsLog :: "string \<Rightarrow> bool" where
  "containsLog [] = False"
| "containsLog (c # cs) = (if take 3 (c # cs) = ''Log'' then True else containsLog cs)"

text \<open>
  The report of a result of \<^verbatim>\<open>processParsedLog\<close> or \<^verbatim>\<open>parseText\<close>, if there is one, and the
  counter of a category in a report.
\<close>

definition reportOf :: "error + (LogInfo \<times> LogData) \<Rightarrow> LogInfo option" where
  "reportOf result = (case result of Inl e \<Rightarrow> None | Inr rd \<Rightarrow> Some (fst rd))"

definition categoryCount :: "string \<Rightarrow> LogInfo \<Rightarrow> nat option" where
  "categoryCount c r = map_of (categories r) c"

text \<open>
  How many records of a list, and how many unique entries, carry a given category; and what
  a counter that was \<open>before\<close> holds after \<open>n\<close> increments, where the first increment of an
  absent counter creates it with the value 1.
\<close>

definition occurrencesOfCategory :: "string \<Rightarrow> LogObject list \<Rightarrow> nat" where
  "occurrencesOfCategory c ms = length (filter (\<lambda>m. category m = Some c) ms)"

definition uniqueWithCategory :: "string \<Rightarrow> LogObject list \<Rightarrow> nat" where
  "uniqueWithCategory c ul = length (filter (\<lambda>e. category e = Some c) ul)"

definition countAfter :: "nat \<Rightarrow> nat option \<Rightarrow> nat option" where
  "countAfter n before =
     (if n = 0 then before else Some (n + (case before of None \<Rightarrow> 0 | Some k \<Rightarrow> k)))"

section \<open>Concrete settings and inputs\<close>

text \<open>Settings, a file system and records at which the theorems below are evaluated.\<close>

definition noFilter :: FilterSettings where
  "noFilter = \<lparr> ignore = True, allowUndefined = True, whitelist = [], blacklist = [] \<rparr>"

definition perFileSettings :: Settings where
  "perFileSettings =
     \<lparr> consolidate = False, directory = ''local'', folderPath = [],
       typeFilter = noFilter, categoryFilter = noFilter \<rparr>"

definition consolidatedSettings :: Settings where
  "consolidatedSettings = perFileSettings \<lparr> consolidate := True \<rparr>"

definition oneFileWorld :: World where
  "oneFileWorld =
     \<lparr> dirname = ''logs'',
       files = [''logs'' @ [CHR 0x5C] @ ''a.log'' \<mapsto> ''LogTemp: Display: Hello world''] \<rparr>"

definition errorTwice :: LogObject where
  "errorTwice =
     \<lparr> category = Some ''Temp'', type = Some ''Error'', message = Some ''boom'',
       logText = ''LogTemp: Error: boom'', count = 2, siblings = [''LogTemp: Error: boom''] \<rparr>"

definition displayOnce :: LogObject where
  "displayOnce =
     \<lparr> category = Some ''Temp'', type = Some ''Display'', message = Some ''Hello world'',
       logText = ''LogTemp: Display: Hello world'', count = 1, siblings = [] \<rparr>"

section \<open>The sorter on the empty list\<close>

text \<open>
  Claim C10. For the empty list of unique entries the sorter throws: the debug string is
  built by a \<^verbatim>\<open>reduce\<close> without initial value, whatever the debug setting is, and that
  throws a TypeError on an empty array. No ordering is returned.
\<close>

theorem sortLogsByCount_empty_throws: "sortLogsByCount [] = Inl TypeError"
  by (simp add: sortLogsByCount_def debugString_def reduceNoInit_def)

section \<open>Texts without a candidate line\<close>

text \<open>
  Claim C2 says that a text in which no line matches the extractor pattern gives an empty
  sequence of candidates and that parsing completes. In the code \<^verbatim>\<open>match\<close> returns \<^verbatim>\<open>null\<close>
  for such a text and \<^verbatim>\<open>parseText\<close> reads \<^verbatim>\<open>matchArray.length\<close>: it throws a TypeError, for
  the empty text and for a text without the marker alike, in every mode.
\<close>

theorem parseText_without_candidates_throws:
  "parseText settings [] fileName logData = Inl TypeError \<and>
   parseText settings ''hello world\<newline>'' fileName logData = Inl TypeError"
  by (simp add: parseText_def matchLogRegex_def matchLogRegexAt_def)

section \<open>Type buckets of the filtered report\<close>

text \<open>
  Claim C3 says that each type bucket of the filtered report is the sum of the occurrence
  counts of the kept entries of that bucket. In the code the buckets \<^verbatim>\<open>errors\<close> and
  \<^verbatim>\<open>warnings\<close> are incremented by one per kept entry, while the total is raised by
  the count: one kept entry of type Error with count 2 gives a total of 2 and an error
  bucket of 1. A kept entry of any other type makes the function throw a ReferenceError,
  and with it the consolidated run over a file that holds one line of type Display.
\<close>

theorem filterLogList_counts_error_once:
  "filterLogList consolidatedSettings [errorTwice] =
     Inr \<lparr> filteredTotalCount = 2, filteredUniqueList = [errorTwice],
           filteredTypeCounts =
             [(''errors'', 1), (''warnings'', 0), (''verbose'', 0), (''general'', 0)] \<rparr>
   \<and> filterLogList consolidatedSettings [displayOnce] = Inl ReferenceError
   \<and> run consolidatedSettings oneFileWorld [''a.log''] initialLogData = Inl ReferenceError"
  by code_simp

section \<open>A source that cannot be read\<close>

text \<open>
  Claim C4 says that a file that cannot be located or read is skipped with a diagnostic and
  that the run continues. In the code \<^verbatim>\<open>loadText\<close> reads every file before any is parsed,
  and \<^verbatim>\<open>readFileSync\<close> throws for the missing one: the run ends with that error whether the
  missing file comes first or last, and the file that is there is never parsed. The branch
  of \<^verbatim>\<open>run\<close> for a path that does not exist is not reached.
\<close>

theorem run_aborts_on_missing_file:
  "run perFileSettings oneFileWorld [''missing.log'', ''a.log''] initialLogData
     = Inl (ENOENT (''logs'' @ [CHR 0x5C] @ ''missing.log'')) \<and>
   run perFileSettings oneFileWorld [''a.log'', ''missing.log''] initialLogData
     = Inl (ENOENT (''logs'' @ [CHR 0x5C] @ ''missing.log''))"
  by code_simp

section \<open>The tally of the types\<close>

text \<open>
  Claim C6 says that an entry without a type is counted in the bucket \<^verbatim>\<open>general\<close>, so that
  the type buckets add up to the number of unique entries. In the code the tally has no
  branch for an absent type: the line \<^verbatim>\<open>LogTemp: hello\<close> gives one unique entry and leaves
  every bucket at 0.
\<close>

theorem tally_skips_absent_type:
  "map_option typeCounts (reportOf (processParsedLog perFileSettings
      (map parseLine [''LogTemp: hello'']) None initialLogData))
     = Some [(''general'', 0), (''verbose'', 0), (''warnings'', 0), (''errors'', 0)] \<and>
   map_option (length \<circ> uniqueList) (reportOf (processParsedLog perFileSettings
      (map parseLine [''LogTemp: hello'']) None initialLogData)) = Some 1"
  by code_simp

section \<open>Candidates of the extractor\<close>

lemma take3_LogD: "take 3 s = ''Log'' \<Longrightarrow> \<exists>r. s = CHR ''L'' # CHR ''o'' # CHR ''g'' # r"
proof -
  assume a: "take 3 s = ''Log''"
  then obtain a1 s1 where s: "s = a1 # s1" by (cases s) auto
  with a obtain a2 s2 where s1: "s1 = a2 # s2" by (cases s1) auto
  with a s obtain a3 s3 where s2: "s2 = a3 # s3" by (cases s2) auto
  from a show ?thesis unfolding s s1 s2 by simp
qed

lemma matchLogRegexAt_SomeD:
  assumes "matchLogRegexAt s = Some m"
  shows "m = takeWhile (\<lambda>c. \<not> isLineTerminator c) s"
    and "take 3 m = ''Log''"
    and "CHR '':'' \<in> set (drop 3 m)"
proof -
  from assms have m: "m = takeWhile (\<lambda>c. \<not> isLineTerminator c) s"
    and log: "take 3 s = ''Log''"
    and colon: "CHR '':'' \<in> set (takeWhile (\<lambda>c. \<not> isLineTerminator c) (drop 3 s))"
    by (auto simp: matchLogRegexAt_def split: if_splits)
  from take3_LogD [OF log] obtain rest where s: "s = CHR ''L'' # CHR ''o'' # CHR ''g'' # rest" ..
  show "m = takeWhile (\<lambda>c. \<not> isLineTerminator c) s" by (rule m)
  show "take 3 m = ''Log''" by (simp add: m s isLineTerminator_def)
  from colon show "CHR '':'' \<in> set (drop 3 m)" by (simp add: m s isLineTerminator_def)
qed

lemma matchAll_candidates:
  "c \<in> set (matchAll input) \<Longrightarrow>
   take 3 c = ''Log'' \<and> CHR '':'' \<in> set (drop 3 c) \<and> list_all (\<lambda>x. \<not> isLineTerminator x) c \<and>
   (\<exists>pre post. input = pre @ c @ post \<and> (post = [] \<or> isLineTerminator (hd post)))"
proof (induction input rule: matchAll.induct)
  case 1
  then show ?case by simp
next
  case (2 x xs)
  show ?case
  proof (cases "matchLogRegexAt (x # xs)")
    case None
    with "2.prems" have "c \<in> set (matchAll xs)" by simp
    from "2.IH"(1) [OF None this] obtain pre post where
      *: "take 3 c = ''Log''" "CHR '':'' \<in> set (drop 3 c)" "list_all (\<lambda>x. \<not> isLineTerminator x) c"
      "xs = pre @ c @ post" "post = [] \<or> isLineTerminator (hd post)"
      by blast
    from *(4) have "x # xs = (x # pre) @ c @ post" by simp
    with * show ?thesis by blast
  next
    case (Some m)
    note m = matchLogRegexAt_SomeD [OF Some]
    let ?rest = "drop (length m) (x # xs)"
    have split: "x # xs = m @ ?rest"
      unfolding m(1) by (metis append_take_drop_id takeWhile_eq_take)
    have rest: "?rest = dropWhile (\<lambda>c. \<not> isLineTerminator c) (x # xs)"
      unfolding m(1) by (metis dropWhile_eq_drop)
    from "2.prems" Some have "c = m \<or> c \<in> set (matchAll ?rest)" by simp
    then show ?thesis
    proof
      assume c: "c = m"
      have "list_all (\<lambda>x. \<not> isLineTerminator x) m"
        unfolding m(1) list_all_iff by (auto dest: set_takeWhileD)
      moreover have "?rest = [] \<or> isLineTerminator (hd ?rest)"
        unfolding rest using hd_dropWhile [of "\<lambda>c. \<not> isLineTerminator c" "x # xs"] by blast
      moreover from split have "x # xs = [] @ m @ ?rest" by simp
      ultimately show ?thesis using m(2,3) c by blast
    next
      assume "c \<in> set (matchAll ?rest)"
      from "2.IH"(2) [OF Some this] obtain pre post where
        *: "take 3 c = ''Log''" "CHR '':'' \<in> set (drop 3 c)" "list_all (\<lambda>x. \<not> isLineTerminator x) c"
        "?rest = pre @ c @ post" "post = [] \<or> isLineTerminator (hd post)"
        by blast
      from split *(4) have "x # xs = (m @ pre) @ c @ post" by simp
      with * show ?thesis by blast
    qed
  qed
qed

lemma matchLogRegex_SomeD: "matchLogRegex input = Some ms \<Longrightarrow> ms = matchAll input"
  by (auto simp: matchLogRegex_def split: list.splits)

lemma matchLogRegexAt_None: "take 3 s \<noteq> ''Log'' \<Longrightarrow> matchLogRegexAt s = None"
  by (metis matchLogRegexAt_def)

lemma take3_before:
  assumes "take 3 (xs @ s) = ''Log''" and "xs \<noteq> []"
    and "take 1 s \<noteq> ''o''" "take 1 s \<noteq> ''g''"
  shows "take 3 xs = ''Log''"
proof (cases xs)
  case Nil
  with assms(2) show ?thesis by simp
next
  case (Cons a xs1)
  show ?thesis
  proof (cases xs1)
    case Nil
    with Cons assms(1,3) show ?thesis by (cases s) auto
  next
    case (Cons b xs2)
    note c2 = this
    show ?thesis
    proof (cases xs2)
      case Nil
      with c2 \<open>xs = a # xs1\<close> assms(1,4) show ?thesis by (cases s) auto
    next
      case (Cons c xs3)
      with c2 \<open>xs = a # xs1\<close> assms(1) show ?thesis by simp
    qed
  qed
qed

lemma matchAll_skip:
  assumes "\<not> containsLog before" and "take 1 s \<noteq> ''o''" "take 1 s \<noteq> ''g''"
  shows "matchAll (before @ s) = matchAll s"
  using assms(1)
proof (induction before)
  case Nil
  then show ?case by simp
next
  case (Cons a before)
  from Cons.prems have no: "take 3 (a # before) \<noteq> ''Log''" and rest: "\<not> containsLog before"
    by (auto split: if_splits)
  from no have "take 3 ((a # before) @ s) \<noteq> ''Log''"
    using take3_before [of "a # before" s] assms(2,3) by blast
  then have "matchLogRegexAt ((a # before) @ s) = None"
    by (rule matchLogRegexAt_None)
  then have "matchAll ((a # before) @ s) = matchAll (before @ s)" by simp
  with Cons.IH [OF rest] show ?case by simp
qed

lemma matchLogRegexAt_line:
  assumes "take 3 line = ''Log''" "CHR '':'' \<in> set line" "list_all (\<lambda>c. \<not> isLineTerminator c) line"
    and "rest = [] \<or> isLineTerminator (hd rest)"
  shows "matchLogRegexAt (line @ rest) = Some line"
proof -
  from take3_LogD [OF assms(1)] obtain r where line: "line = CHR ''L'' # CHR ''o'' # CHR ''g'' # r" ..
  from assms(3) have all: "\<And>x. x \<in> set line \<Longrightarrow> \<not> isLineTerminator x"
    by (simp add: list_all_iff)
  from assms(4) have rest: "takeWhile (\<lambda>c. \<not> isLineTerminator c) rest = []"
    by (cases rest) auto
  have tw: "takeWhile (\<lambda>c. \<not> isLineTerminator c) (line @ rest) = line"
    using all by (simp add: takeWhile_append2 rest)
  have "takeWhile (\<lambda>c. \<not> isLineTerminator c) (r @ rest) = r"
    using all by (simp add: takeWhile_append2 rest line)
  moreover from assms(2) have "CHR '':'' \<in> set r" by (simp add: line)
  ultimately show ?thesis
    using tw by (simp add: matchLogRegexAt_def line)
qed

lemma matchAll_line:
  assumes "take 3 line = ''Log''" "CHR '':'' \<in> set line" "list_all (\<lambda>c. \<not> isLineTerminator c) line"
    and "rest = [] \<or> isLineTerminator (hd rest)"
  shows "matchAll (line @ rest) = line # matchAll rest"
proof -
  from assms(1) have "line \<noteq> []" by auto
  then obtain c cs where "line @ rest = c # cs" by (cases line) auto
  with matchLogRegexAt_line [OF assms] show ?thesis
    by (metis append_eq_conv_conj matchAll.simps(2) option.simps(5))
qed

lemma matchAll_tail:
  assumes "\<not> containsLog before"
    and "take 3 tail = ''Log''" "CHR '':'' \<in> set tail" "list_all (\<lambda>c. \<not> isLineTerminator c) tail"
    and "rest = [] \<or> isLineTerminator (hd rest)"
  shows "matchAll (before @ tail @ rest) = tail # matchAll rest"
proof -
  from assms(2) obtain r where "tail = CHR ''L'' # r" by (cases tail) auto
  then have "take 1 (tail @ rest) \<noteq> ''o''" "take 1 (tail @ rest) \<noteq> ''g''" by simp_all
  with assms(1) have "matchAll (before @ tail @ rest) = matchAll (tail @ rest)"
    by (rule matchAll_skip)
  also have "\<dots> = tail # matchAll rest"
    using assms(2-5) by (rule matchAll_line)
  finally show ?thesis .
qed

lemma takeWhile_before_terminator:
  "isLineTerminator z \<Longrightarrow>
   takeWhile (\<lambda>c. \<not> isLineTerminator c) (xs @ z # y) = takeWhile (\<lambda>c. \<not> isLineTerminator c) (xs @ [z])"
  by (induction xs) simp_all

lemma matchLogRegexAt_append:
  assumes "x \<noteq> []" "isLineTerminator (last x)"
  shows "matchLogRegexAt (x @ y) = matchLogRegexAt x"
proof -
  define z where "z = last x"
  define x0 where "x0 = butlast x"
  have x: "x = x0 @ [z]" using assms(1) by (simp add: x0_def z_def)
  have z: "isLineTerminator z" using assms(2) by (simp add: z_def)
  then have zc: "z \<noteq> CHR ''L''" "z \<noteq> CHR ''o''" "z \<noteq> CHR ''g''"
    by (auto simp: isLineTerminator_def)
  have whole: "takeWhile (\<lambda>c. \<not> isLineTerminator c) (x @ y) = takeWhile (\<lambda>c. \<not> isLineTerminator c) x"
    unfolding x using takeWhile_before_terminator [OF z, of x0 y] by simp
  show ?thesis
  proof (cases x0)
    case Nil
    with zc show ?thesis by (simp add: x matchLogRegexAt_def)
  next
    case (Cons a x1)
    note c1 = this
    show ?thesis
    proof (cases x1)
      case Nil
      with c1 zc show ?thesis by (simp add: x matchLogRegexAt_def)
    next
      case (Cons b x2)
      note c2 = this
      show ?thesis
      proof (cases x2)
        case Nil
        with c1 c2 zc show ?thesis by (simp add: x matchLogRegexAt_def)
      next
        case (Cons c x3)
        have "takeWhile (\<lambda>c. \<not> isLineTerminator c) (x3 @ z # y) =
            takeWhile (\<lambda>c. \<not> isLineTerminator c) (x3 @ [z])"
          using z by (rule takeWhile_before_terminator)
        with whole c1 c2 Cons show ?thesis
          by (simp add: x matchLogRegexAt_def)
      qed
    qed
  qed
qed

lemma matchAll_append:
  "x = [] \<or> isLineTerminator (last x) \<Longrightarrow> matchAll (x @ y) = matchAll x @ matchAll y"
proof (induction x rule: matchAll.induct)
  case 1
  then show ?case by simp
next
  case (2 c cs)
  from "2.prems" have lt: "isLineTerminator (last (c # cs))" by simp
  have at: "matchLogRegexAt ((c # cs) @ y) = matchLogRegexAt (c # cs)"
    using lt by (intro matchLogRegexAt_append) simp_all
  show ?case
  proof (cases "matchLogRegexAt (c # cs)")
    case None
    have "cs = [] \<or> isLineTerminator (last cs)" using lt by (cases cs) auto
    from "2.IH"(1) [OF None this] None at show ?thesis by simp
  next
    case (Some m)
    note m = matchLogRegexAt_SomeD [OF Some]
    let ?rest = "drop (length m) (c # cs)"
    have split: "c # cs = m @ ?rest"
      unfolding m(1) by (metis append_take_drop_id takeWhile_eq_take)
    have "list_all (\<lambda>x. \<not> isLineTerminator x) m"
      unfolding m(1) list_all_iff by (auto dest: set_takeWhileD)
    then have "m \<noteq> c # cs"
      using lt last_in_set [of "c # cs"] unfolding list_all_iff by blast
    with split have ne: "?rest \<noteq> []" by auto
    then have "last ?rest = last (c # cs)" by (metis last_appendR split)
    with lt ne have pre: "?rest = [] \<or> isLineTerminator (last ?rest)" by simp
    have "length m \<le> length (c # cs)" using split by (metis length_append le_add1)
    then have "length m - length (c # cs) = 0" by simp
    then have d: "drop (length m) ((c # cs) @ y) = ?rest @ y"
      using drop_append [of "length m" "c # cs" y] by (simp del: drop_append)
    have "matchAll ((c # cs) @ y) = m # matchAll (?rest @ y)"
      using at Some d by simp
    also have "matchAll (?rest @ y) = matchAll ?rest @ matchAll y"
      using "2.IH"(2) [OF Some pre] .
    finally show ?thesis using Some by simp
  qed
qed

text \<open>
  Claim C5, as amended. The pattern is not anchored at the start of a line, so a candidate
  is not a whole line that begins with the marker: it is the part of a line from the first
  marker on. First, every candidate of the extractor begins with \<^verbatim>\<open>Log\<close>, has a colon
  after the marker, contains no line terminator, and stands in the input directly before a
  line terminator or the end of the text. Second, a text \<open>tail\<close> that begins with the marker,
  has a colon and runs to the end of its line is extracted, and as a whole, whatever text
  without the marker stands before it: the line is extracted from the marker on, and what
  precedes the marker is not. Third, the extractor works line by line: the candidates of a
  text that ends with a line terminator, followed by more text, are the candidates of the
  two parts.
\<close>

theorem extractor_candidates:
  "(matchLogRegex input = Some ms \<and> c \<in> set ms \<longrightarrow>
      take 3 c = ''Log'' \<and> CHR '':'' \<in> set (drop 3 c) \<and>
      list_all (\<lambda>x. \<not> isLineTerminator x) c \<and>
      (\<exists>pre post. input = pre @ c @ post \<and> (post = [] \<or> isLineTerminator (hd post)))) \<and>
   (\<not> containsLog before \<and> take 3 tail = ''Log'' \<and> CHR '':'' \<in> set tail \<and>
      list_all (\<lambda>x. \<not> isLineTerminator x) tail \<and> (rest = [] \<or> isLineTerminator (hd rest)) \<longrightarrow>
      matchLogRegex (before @ tail @ rest) = Some (tail # matchAll rest)) \<and>
   (isLineTerminator (last (x # xs)) \<longrightarrow>
      matchAll ((x # xs) @ y) = matchAll (x # xs) @ matchAll y)"
proof (intro conjI impI)
  assume "matchLogRegex input = Some ms \<and> c \<in> set ms"
  then have c: "c \<in> set (matchAll input)" by (auto dest!: matchLogRegex_SomeD)
  from matchAll_candidates [OF c]
  show "take 3 c = ''Log''" and "CHR '':'' \<in> set (drop 3 c)"
    and "list_all (\<lambda>x. \<not> isLineTerminator x) c"
    and "\<exists>pre post. input = pre @ c @ post \<and> (post = [] \<or> isLineTerminator (hd post))"
    by blast+
next
  assume "\<not> containsLog before \<and> take 3 tail = ''Log'' \<and> CHR '':'' \<in> set tail \<and>
      list_all (\<lambda>x. \<not> isLineTerminator x) tail \<and> (rest = [] \<or> isLineTerminator (hd rest))"
  then have "matchAll (before @ tail @ rest) = tail # matchAll rest"
    by (intro matchAll_tail) simp_all
  then show "matchLogRegex (before @ tail @ rest) = Some (tail # matchAll rest)"
    by (simp add: matchLogRegex_def)
next
  assume "isLineTerminator (last (x # xs))"
  then show "matchAll ((x # xs) @ y) = matchAll (x # xs) @ matchAll y"
    by (intro matchAll_append) simp
qed

theorem extractor_candidates_witness:
  "matchLogRegex ''[a][b]LogTemp: hi\<newline>next'' = Some [''LogTemp: hi''] \<and>
   take 3 ''LogTemp: hi'' = ''Log'' \<and> CHR '':'' \<in> set (drop 3 ''LogTemp: hi'') \<and>
   list_all (\<lambda>x. \<not> isLineTerminator x) ''LogTemp: hi'' \<and>
   (\<exists>pre post. ''[a][b]LogTemp: hi\<newline>next'' = pre @ ''LogTemp: hi'' @ post \<and>
      (post = [] \<or> isLineTerminator (hd post))) \<and>
   \<not> containsLog ''[a][b]'' \<and> isLineTerminator (hd ''\<newline>next'') \<and>
   matchLogRegex (''[a][b]'' @ ''LogTemp: hi'' @ ''\<newline>next'') = Some (''LogTemp: hi'' # matchAll ''\<newline>next'') \<and>
   isLineTerminator (last ''LogA: x\<newline>'') \<and>
   matchAll (''LogA: x\<newline>'' @ ''[a][b]LogTemp: hi'') =
     matchAll ''LogA: x\<newline>'' @ matchAll ''[a][b]LogTemp: hi''"
proof -
  have m: "matchLogRegex ''[a][b]LogTemp: hi\<newline>next'' = Some [''LogTemp: hi'']"
    by (simp add: matchLogRegex_def matchLogRegexAt_def isLineTerminator_def)
  have h: "\<not> containsLog ''[a][b]''" "take 3 ''LogTemp: hi'' = ''Log''"
    "CHR '':'' \<in> set ''LogTemp: hi''" "list_all (\<lambda>x. \<not> isLineTerminator x) ''LogTemp: hi''"
    "isLineTerminator (hd ''\<newline>next'')" "isLineTerminator (last ''LogA: x\<newline>'')"
    by (simp_all add: isLineTerminator_def)
  from extractor_candidates [of "''[a][b]LogTemp: hi\<newline>next''" "[''LogTemp: hi'']" "''LogTemp: hi''"
      "''[a][b]''" "''LogTemp: hi''" "''\<newline>next''" "CHR ''L''" "''ogA: x\<newline>''" "''[a][b]LogTemp: hi''"] m h
  show ?thesis by simp
qed

text \<open>
  The claim as stated fails: the line \<^verbatim>\<open>[a][b]LogTemp: hi\<close> does not start with the marker
  and still yields a candidate.
\<close>

theorem extractor_takes_line_tail_counterexample:
  "matchLogRegex ''[a][b]LogTemp: hi'' = Some [''LogTemp: hi''] \<and>
   take 3 ''[a][b]LogTemp: hi'' \<noteq> ''Log''"
  by (simp add: matchLogRegex_def matchLogRegexAt_def isLineTerminator_def)

section \<open>The aggregation loop\<close>

lemma findIndex_None: "findIndex P xs = None \<longleftrightarrow> (\<forall>x \<in> set xs. \<not> P x)"
  by (induction xs) auto

lemma findIndex_Some_less: "findIndex P xs = Some i \<Longrightarrow> i < length xs"
  by (induction xs arbitrary: i) (auto split: if_splits)

lemma processLoop_Inr:
  "processLoop ms logInfo = Inr l \<Longrightarrow>
   list_all (\<lambda>m. \<not> typeInvalid m) ms \<and>
   uniqueList l = fold foldUnique ms (uniqueList logInfo) \<and>
   categories l = fst (fold foldCategory ms (categories logInfo, general logInfo)) \<and>
   general l = snd (fold foldCategory ms (categories logInfo, general logInfo)) \<and>
   typeCounts l = typeCounts logInfo \<and> totalCount l = totalCount logInfo"
proof (induction ms arbitrary: logInfo)
  case Nil
  then show ?case by simp
next
  case (Cons m ms)
  let ?cg = "foldCategory m (categories logInfo, general logInfo)"
  let ?next = "logInfo \<lparr> uniqueList := foldUnique m (uniqueList logInfo),
                         categories := fst ?cg, general := snd ?cg \<rparr>"
  from Cons.prems have valid: "\<not> typeInvalid m" and rest: "processLoop ms ?next = Inr l"
    by (auto simp: Let_def loggerError_def split: if_splits)
  from Cons.IH [OF rest] valid show ?case by simp
qed

lemma processLoop_dataList:
  "processLoop ms (logData :: LogData) = Inr l \<Longrightarrow> dataList l = dataList logData"
proof (induction ms arbitrary: logData)
  case Nil
  then show ?case by simp
next
  case (Cons m ms)
  let ?cg = "foldCategory m (categories logData, general logData)"
  let ?next = "logData \<lparr> uniqueList := foldUnique m (uniqueList logData),
                         categories := fst ?cg, general := snd ?cg \<rparr>"
  from Cons.prems have "processLoop ms ?next = Inr l"
    by (auto simp: Let_def loggerError_def split: if_splits)
  from Cons.IH [OF this] show ?case by simp
qed

lemma processLoop_returns:
  "list_all (\<lambda>m. \<not> typeInvalid m) ms \<Longrightarrow> \<exists>l. processLoop ms logInfo = Inr l"
  by (induction ms arbitrary: logInfo) (simp_all add: Let_def)

lemma processLoop_throws:
  "\<not> list_all (\<lambda>m. \<not> typeInvalid m) ms \<Longrightarrow> processLoop ms logInfo = Inl ReferenceError"
  by (induction ms arbitrary: logInfo) (auto simp: Let_def loggerError_def)

lemma processParsedLog_Inr:
  assumes "processParsedLog settings ms fileName logData = Inr (r, d)"
  shows "uniqueList r = fold foldUnique ms (if consolidate settings then uniqueList logData else [])"
    and "categories r = fst (fold foldCategory ms
            (if consolidate settings then (categories logData, general logData)
             else ([(''general'', 0)], Undefined)))"
    and "consolidate settings \<Longrightarrow> uniqueList d = uniqueList r \<and> dataList d = dataList logData"
    and "\<not> consolidate settings \<Longrightarrow>
           uniqueList d = uniqueList logData \<and> dataList d = dataList logData @ [r]"
proof -
  show "uniqueList r = fold foldUnique ms (if consolidate settings then uniqueList logData else [])"
    using assms
    by (auto simp: processParsedLog_def Let_def newLogInfo_def LogInfo.truncate_def
        split: if_splits sum.splits dest!: processLoop_Inr)
  show "categories r = fst (fold foldCategory ms
            (if consolidate settings then (categories logData, general logData)
             else ([(''general'', 0)], Undefined)))"
    using assms
    by (auto simp: processParsedLog_def Let_def newLogInfo_def LogInfo.truncate_def
        split: if_splits sum.splits dest!: processLoop_Inr)
  show "consolidate settings \<Longrightarrow> uniqueList d = uniqueList r \<and> dataList d = dataList logData"
    using assms
    by (auto simp: processParsedLog_def Let_def LogInfo.truncate_def
        split: if_splits sum.splits dest: processLoop_dataList)
  show "\<not> consolidate settings \<Longrightarrow>
           uniqueList d = uniqueList logData \<and> dataList d = dataList logData @ [r]"
    using assms
    by (auto simp: processParsedLog_def Let_def split: if_splits sum.splits)
qed

lemma processParsedLog_returns:
  assumes "list_all (\<lambda>m. \<not> typeInvalid m) ms"
  shows "\<exists>r d. processParsedLog settings ms fileName logData = Inr (r, d)"
proof (cases "consolidate settings")
  case True
  from processLoop_returns [OF assms,
      of "logData \<lparr> totalCount := totalCount logData + length ms \<rparr>"]
  obtain l where "processLoop ms (logData \<lparr> totalCount := totalCount logData + length ms \<rparr>) = Inr l" ..
  with True show ?thesis by (simp add: processParsedLog_def Let_def)
next
  case False
  from processLoop_returns [OF assms, of "newLogInfo (length ms)"]
  obtain l where "processLoop ms (newLogInfo (length ms)) = Inr l" ..
  with False show ?thesis by (simp add: processParsedLog_def Let_def)
qed

lemma processParsedLog_throws:
  "\<not> list_all (\<lambda>m. \<not> typeInvalid m) ms \<Longrightarrow>
   processParsedLog settings ms fileName logData = Inl ReferenceError"
  by (simp add: processParsedLog_def processLoop_throws)

lemma foldUnique_singleton:
  "replacePrefix (logText e) = logText info \<Longrightarrow>
   foldUnique info [e] = [e \<lparr> count := count e + 1, siblings := siblings e @ [logText info] \<rparr>]"
  by (simp add: foldUnique_def)

lemma fold_foldUnique_same:
  "list_all (\<lambda>m. logText m = t) ms \<Longrightarrow> replacePrefix (logText e) = t \<Longrightarrow>
   fold foldUnique ms [e] =
     [e \<lparr> count := count e + length ms, siblings := siblings e @ replicate (length ms) t \<rparr>]"
proof (induction ms arbitrary: e)
  case Nil
  then show ?case by simp
next
  case (Cons m ms)
  let ?e = "e \<lparr> count := count e + 1, siblings := siblings e @ [t] \<rparr>"
  from Cons.prems have m: "logText m = t" and ms: "list_all (\<lambda>m. logText m = t) ms" by simp_all
  from Cons.prems m have "foldUnique m [e] = [?e]" by (simp add: foldUnique_singleton)
  moreover have "replacePrefix (logText ?e) = t" using Cons.prems by simp
  ultimately show ?case
    using Cons.IH [OF ms, of ?e] by (simp add: replicate_append_same)
qed

lemma foldUnique_countInvariant:
  "list_all countInvariant ul \<Longrightarrow> countInvariant info \<Longrightarrow> list_all countInvariant (foldUnique info ul)"
proof (cases "findIndex (\<lambda>data. replacePrefix (logText data) = logText info) ul")
  case None
  assume "list_all countInvariant ul" "countInvariant info"
  with None show ?thesis by (simp add: foldUnique_def)
next
  case (Some i)
  assume ul: "list_all countInvariant ul" and "countInvariant info"
  from Some have i: "i < length ul" by (rule findIndex_Some_less)
  with ul have "countInvariant (ul ! i)" by (simp add: list_all_length)
  then have "countInvariant ((ul ! i) \<lparr> count := count (ul ! i) + 1,
      siblings := siblings (ul ! i) @ [logText info] \<rparr>)"
    by (simp add: countInvariant_def)
  with ul show ?thesis
    unfolding foldUnique_def Some list_all_iff
    by (auto dest!: subsetD [OF set_update_subset_insert])
qed

lemma in_ownKeys: "c \<in> set (ownKeys obj) \<longleftrightarrow> map_of obj c \<noteq> None"
  by (simp add: ownKeys_def map_of_eq_None_iff)

lemma map_of_incrProp:
  "map_of (incrProp k obj) c = (if c = k then map_option (\<lambda>n. n + 1) (map_of obj c) else map_of obj c)"
  by (simp add: incrProp_def map_of_map_entry split: option.splits)

lemma map_of_insertIndexKey:
  "k \<notin> set (ownKeys obj) \<Longrightarrow>
   map_of (insertIndexKey k v obj) c = (if c = k then Some v else map_of obj c)"
  by (induction obj) (auto simp: ownKeys_def)

lemma map_of_assignProp:
  "map_of (assignProp k v obj) c =
     (if k = ''__proto__'' then map_of obj c else if c = k then Some v else map_of obj c)"
proof (cases "k \<in> set (ownKeys obj)")
  case True
  then show ?thesis by (simp add: assignProp_def update_conv')
next
  case False
  then have "map_of obj k = None" by (simp add: in_ownKeys)
  then have app: "\<And>c. map_of (obj @ [(k, v)]) c = (if c = k then Some v else map_of obj c)"
    by (auto simp: map_add_def split: option.splits)
  show ?thesis
  proof (cases "k = ''__proto__''")
    case True
    then show ?thesis by (simp add: assignProp_def)
  next
    case proto: False
    show ?thesis
    proof (cases "isArrayIndex k")
      case True
      with False proto show ?thesis
        by (simp only: assignProp_def map_of_insertIndexKey [OF False] if_False if_True)
    next
      case idx: False
      with False proto have "assignProp k v obj = obj @ [(k, v)]"
        by (simp only: assignProp_def if_False)
      with app [of c] proto show ?thesis by (simp only: if_False)
    qed
  qed
qed

lemma map_of_foldCategory:
  assumes "c \<noteq> []" "c \<noteq> ''__proto__''"
  shows "map_of (fst (foldCategory info cg)) c =
           countAfter (if category info = Some c then 1 else 0) (map_of (fst cg) c)"
  using assms
  by (auto simp: foldCategory_def countAfter_def in_ownKeys map_of_incrProp map_of_assignProp
      split: option.splits)

lemma countAfter_countAfter: "countAfter n (countAfter m v) = countAfter (m + n) v"
  by (auto simp: countAfter_def split: option.splits)

lemma map_of_fold_foldCategory:
  assumes "c \<noteq> []" "c \<noteq> ''__proto__''"
  shows "map_of (fst (fold foldCategory ms cg)) c =
           countAfter (occurrencesOfCategory c ms) (map_of (fst cg) c)"
proof (induction ms arbitrary: cg)
  case Nil
  show ?case by (simp add: occurrencesOfCategory_def countAfter_def)
next
  case (Cons m ms)
  show ?case
    using Cons.IH [of "foldCategory m cg"]
    by (simp add: map_of_foldCategory [OF assms] countAfter_countAfter occurrencesOfCategory_def)
qed



lemma foldUnique_nonempty: "foldUnique info ul \<noteq> []"
  by (auto simp: foldUnique_def split: option.splits dest: findIndex_Some_less)

lemma fold_foldUnique_nonempty: "ul \<noteq> [] \<Longrightarrow> fold foldUnique ms ul \<noteq> []"
  by (induction ms arbitrary: ul) (simp_all add: foldUnique_nonempty)

section \<open>Category counters\<close>

text \<open>
  Claim C1, as amended. The category counters are advanced in the loop over the incoming
  records, once per record and not once per unique entry. For records whose types pass the
  validation of the loop, the fold returns a report, and in it the counter of a present
  category (a non-empty name other than \<^verbatim>\<open>__proto__\<close>) has grown by the number of records that
  carry the category. In a fresh per-file report it equals that number; the key \<^verbatim>\<open>general\<close>
  is there from the start with the value 0.
\<close>

theorem categories_count_occurrences:
  assumes "c \<noteq> []" "c \<noteq> ''__proto__''" and valid: "list_all (\<lambda>m. \<not> typeInvalid m) ms"
  shows "\<exists>r d. processParsedLog settings ms fileName logData = Inr (r, d) \<and>
           categoryCount c r =
             countAfter (occurrencesOfCategory c ms)
               (if consolidate settings then map_of (categories logData) c
                else map_of [(''general'', 0)] c)"
proof -
  from processParsedLog_returns [OF valid]
  obtain r d where res: "processParsedLog settings ms fileName logData = Inr (r, d)" by blast
  from processParsedLog_Inr(2) [OF res]
  have "categoryCount c r =
      countAfter (occurrencesOfCategory c ms)
        (if consolidate settings then map_of (categories logData) c
         else map_of [(''general'', 0)] c)"
    by (simp add: categoryCount_def map_of_fold_foldCategory [OF assms(1,2)])
  with res show ?thesis by blast
qed

theorem categories_count_occurrences_witness:
  "''Temp'' \<noteq> [] \<and> ''Temp'' \<noteq> ''__proto__'' \<and>
   list_all (\<lambda>m. \<not> typeInvalid m)
     (map parseLine [''LogTemp: hi'', ''LogTemp: hi'', ''LogCore: Warning: Init failed'']) \<and>
   occurrencesOfCategory ''Temp''
     (map parseLine [''LogTemp: hi'', ''LogTemp: hi'', ''LogCore: Warning: Init failed'']) = 2 \<and>
   map_option (categoryCount ''Temp'') (reportOf (processParsedLog perFileSettings
       (map parseLine [''LogTemp: hi'', ''LogTemp: hi'', ''LogCore: Warning: Init failed''])
       None initialLogData)) = Some (Some 2)"
proof -
  have h1: "''Temp'' \<noteq> []" by simp
  have h2: "''Temp'' \<noteq> ''__proto__''" by simp
  have h3: "list_all (\<lambda>m. \<not> typeInvalid m)
     (map parseLine [''LogTemp: hi'', ''LogTemp: hi'', ''LogCore: Warning: Init failed''])"
    by code_simp
  have n: "occurrencesOfCategory ''Temp''
     (map parseLine [''LogTemp: hi'', ''LogTemp: hi'', ''LogCore: Warning: Init failed'']) = 2"
    by code_simp
  from categories_count_occurrences [OF h1 h2 h3, of perFileSettings None initialLogData] n h3
  show ?thesis by (auto simp: countAfter_def perFileSettings_def reportOf_def)
qed

text \<open>
  The claim as stated fails: two records with the same text give one unique entry of the
  category \<^verbatim>\<open>Temp\<close> and a counter of 2. A record without category leaves the category
  mapping as it is; the code increments \<^verbatim>\<open>logInfo.general\<close> instead, which becomes NaN.
\<close>

theorem categories_count_unique_counterexample:
  "map_option (categoryCount ''Temp'') (reportOf (processParsedLog perFileSettings
       (map parseLine [''LogTemp: hi'', ''LogTemp: hi'']) None initialLogData)) = Some (Some 2) \<and>
   map_option (uniqueWithCategory ''Temp'' \<circ> uniqueList) (reportOf (processParsedLog
       perFileSettings (map parseLine [''LogTemp: hi'', ''LogTemp: hi'']) None initialLogData))
     = Some 1 \<and>
   category (parseLine ''Log: x'') = None \<and>
   map_option categories (reportOf (processParsedLog perFileSettings (map parseLine [''Log: x''])
       None initialLogData)) = Some [(''general'', 0)] \<and>
   map_option general (reportOf (processParsedLog perFileSettings (map parseLine [''Log: x''])
       None initialLogData)) = Some NaN"
  by code_simp

section \<open>Deduplication\<close>

text \<open>
  Claim C8, as amended. The aggregator compares the stored text with the prefix pattern
  removed to the incoming text as it is, so a text is only recognised again when removing
  the pattern leaves it unchanged. For such a text, folding \<open>N \<ge> 1\<close> fresh records that
  carry it and whose types pass the validation into an empty report returns a report with
  exactly one unique entry, with count \<open>N\<close> and \<open>N - 1\<close> siblings. Every fold step keeps the
  invariant that a count is one more than the number of siblings.
\<close>

theorem dedup_identical_lines:
  assumes nonempty: "ms \<noteq> []"
    and same: "list_all (freshWithText t) ms"
    and valid: "list_all (\<lambda>m. \<not> typeInvalid m) ms"
    and stable: "replacePrefix t = t"
    and inv: "list_all countInvariant ul" "countInvariant info"
  shows "(\<exists>r d. processParsedLog settings ms fileName initialLogData = Inr (r, d) \<and>
            uniqueList r = [(hd ms) \<lparr> count := length ms, siblings := replicate (length ms - 1) t \<rparr>]) \<and>
         list_all countInvariant (foldUnique info ul)"
proof -
  from nonempty obtain m0 rest where ms: "ms = m0 # rest" by (cases ms) auto
  from same have m0: "logText m0 = t" "count m0 = 1" "siblings m0 = []"
    and rest: "list_all (\<lambda>m. logText m = t) rest"
    by (simp_all add: ms list_all_iff freshWithText_def)
  have "fold foldUnique (m0 # rest) [] = fold foldUnique rest [m0]"
    by (simp add: foldUnique_def)
  also have "\<dots> = [m0 \<lparr> count := count m0 + length rest,
      siblings := siblings m0 @ replicate (length rest) t \<rparr>]"
    using rest stable m0 by (intro fold_foldUnique_same) simp_all
  finally have folded: "fold foldUnique ms [] =
      [(hd ms) \<lparr> count := length ms, siblings := replicate (length ms - 1) t \<rparr>]"
    by (simp add: m0 ms del: fold_simps)
  from processParsedLog_returns [OF valid]
  obtain r d where res: "processParsedLog settings ms fileName initialLogData = Inr (r, d)"
    by blast
  from processParsedLog_Inr(1) [OF res] folded
  have "uniqueList r = [(hd ms) \<lparr> count := length ms, siblings := replicate (length ms - 1) t \<rparr>]"
    by (simp add: initialLogData_def)
  with res inv show ?thesis by (auto simp: foldUnique_countInvariant)
qed

theorem dedup_identical_lines_witness:
  "map parseLine [''LogTemp: hi'', ''LogTemp: hi'', ''LogTemp: hi''] \<noteq> [] \<and>
   list_all (freshWithText ''LogTemp: hi'')
     (map parseLine [''LogTemp: hi'', ''LogTemp: hi'', ''LogTemp: hi'']) \<and>
   list_all (\<lambda>m. \<not> typeInvalid m)
     (map parseLine [''LogTemp: hi'', ''LogTemp: hi'', ''LogTemp: hi'']) \<and>
   replacePrefix ''LogTemp: hi'' = ''LogTemp: hi'' \<and>
   list_all countInvariant [errorTwice] \<and> countInvariant displayOnce \<and>
   map_option uniqueList (reportOf (processParsedLog perFileSettings
       (map parseLine [''LogTemp: hi'', ''LogTemp: hi'', ''LogTemp: hi'']) None initialLogData)) =
     Some [(parseLine ''LogTemp: hi'') \<lparr> count := 3, siblings := [''LogTemp: hi'', ''LogTemp: hi''] \<rparr>] \<and>
   list_all countInvariant (foldUnique displayOnce [errorTwice])"
proof -
  have h1: "map parseLine [''LogTemp: hi'', ''LogTemp: hi'', ''LogTemp: hi''] \<noteq> []" by simp
  have h2: "list_all (freshWithText ''LogTemp: hi'')
     (map parseLine [''LogTemp: hi'', ''LogTemp: hi'', ''LogTemp: hi''])"
    by code_simp
  have h3: "list_all (\<lambda>m. \<not> typeInvalid m)
     (map parseLine [''LogTemp: hi'', ''LogTemp: hi'', ''LogTemp: hi''])"
    by code_simp
  have h4: "replacePrefix ''LogTemp: hi'' = ''LogTemp: hi''" by code_simp
  have h5: "list_all countInvariant [errorTwice]" by code_simp
  have h6: "countInvariant displayOnce" by code_simp
  from dedup_identical_lines [OF h1 h2 h3 h4 h5 h6, of perFileSettings None] h1 h2 h3 h4 h5 h6
  show ?thesis by (auto simp: numeral_3_eq_3 reportOf_def)
qed

text \<open>
  The claim as stated fails for a text in which a bracketed pair stands directly before a
  later \<^verbatim>\<open>Log\<close>: two records with the text \<^verbatim>\<open>LogA: [x][y]LogB\<close> stay two unique entries.
\<close>

theorem dedup_bracket_pair_counterexample:
  "map_option (map count \<circ> uniqueList) (reportOf (processParsedLog perFileSettings
       (map parseLine [''LogA: [x][y]LogB'', ''LogA: [x][y]LogB'']) None initialLogData))
     = Some [1, 1]"
  by code_simp

section \<open>Lines that differ in a bracketed prefix\<close>




section \<open>Correctness of the sorter\<close>

lemma swap_length [simp]: "length (swap l i j) = length l"
  by (simp add: swap_def)

lemma swap_mset:
  "0 \<le> i \<Longrightarrow> 0 \<le> j \<Longrightarrow> i < int (length l) \<Longrightarrow> j < int (length l) \<Longrightarrow> mset (swap l i j) = mset l"
  unfolding swap_def by (rule mset_swap) simp_all

lemma swap_nth:
  "0 \<le> i \<Longrightarrow> 0 \<le> j \<Longrightarrow> i < int (length l) \<Longrightarrow> j < int (length l) \<Longrightarrow> k < length l \<Longrightarrow>
   swap l i j ! k = (if int k = j then l ! nat i else if int k = i then l ! nat j else l ! k)"
  by (auto simp: swap_def nth_list_update)

lemma partitionLoop_spec:
  assumes "partitionLoop l pivot idx e p = (l', p')"
    and "0 \<le> p" "p \<le> idx" "idx \<le> e" "e \<le> int (length l)"
    and "\<forall>k. p \<le> int k \<and> int k < idx \<longrightarrow> pivot < l ! k"
  shows "length l' = length l \<and> mset l' = mset l \<and> p \<le> p' \<and> p' \<le> e \<and>
    (\<forall>k. p \<le> int k \<and> int k < p' \<longrightarrow> l' ! k \<le> pivot) \<and>
    (\<forall>k. p' \<le> int k \<and> int k < e \<longrightarrow> pivot < l' ! k) \<and>
    (\<forall>k < length l. int k < p \<or> e \<le> int k \<longrightarrow> l' ! k = l ! k) \<and>
    ((\<forall>k. p \<le> int k \<and> int k < e \<longrightarrow> P (l ! k)) \<longrightarrow> (\<forall>k. p \<le> int k \<and> int k < e \<longrightarrow> P (l' ! k)))"
  using assms
proof (induction l pivot idx e p arbitrary: l' p' rule: partitionLoop.induct)
  case (1 l pivot idx e p)
  note eq = "1.prems"(1) and p0 = "1.prems"(2) and pi = "1.prems"(3) and ie = "1.prems"(4)
    and el = "1.prems"(5) and gt = "1.prems"(6)
  show ?case
  proof (cases "idx < e")
    case False
    with ie have "idx = e" by simp
    moreover from False eq have "l' = l" "p' = p"
      by (simp_all add: partitionLoop.simps [of l pivot idx e p])
    ultimately show ?thesis using gt pi by simp
  next
    case less: True
    show ?thesis
    proof (cases "l ! nat idx \<le> pivot")
      case le: True
      let ?l1 = "swap l idx p"
      from less le eq
      have call: "partitionLoop ?l1 pivot (idx + 1) e (p + 1) = (l', p')"
        by (simp add: partitionLoop.simps [of l pivot idx e p])
      have idx_l: "idx < int (length l)" "p < int (length l)" "0 \<le> idx"
        using less el pi p0 by simp_all
      have nth1: "\<And>k. k < length l \<Longrightarrow>
          ?l1 ! k = (if int k = p then l ! nat idx else if int k = idx then l ! nat p else l ! k)"
        using swap_nth [of idx p l] idx_l p0 by simp
      have pre: "\<forall>k. p + 1 \<le> int k \<and> int k < idx + 1 \<longrightarrow> pivot < ?l1 ! k"
      proof (intro allI impI)
        fix k assume k: "p + 1 \<le> int k \<and> int k < idx + 1"
        then have kl: "k < length l" using idx_l by simp
        show "pivot < ?l1 ! k"
        proof (cases "int k = idx")
          case True
          then have "?l1 ! k = l ! nat p" using nth1 [OF kl] k by simp
          moreover have "pivot < l ! nat p" using gt k True p0 by simp
          ultimately show ?thesis by simp
        next
          case False
          then have "?l1 ! k = l ! k" using nth1 [OF kl] k by simp
          moreover have "pivot < l ! k" using gt k False by simp
          ultimately show ?thesis by simp
        qed
      qed
      have ih: "length l' = length ?l1 \<and> mset l' = mset ?l1 \<and> p + 1 \<le> p' \<and> p' \<le> e \<and>
        (\<forall>k. p + 1 \<le> int k \<and> int k < p' \<longrightarrow> l' ! k \<le> pivot) \<and>
        (\<forall>k. p' \<le> int k \<and> int k < e \<longrightarrow> pivot < l' ! k) \<and>
        (\<forall>k < length ?l1. int k < p + 1 \<or> e \<le> int k \<longrightarrow> l' ! k = ?l1 ! k) \<and>
        ((\<forall>k. p + 1 \<le> int k \<and> int k < e \<longrightarrow> P (?l1 ! k)) \<longrightarrow>
         (\<forall>k. p + 1 \<le> int k \<and> int k < e \<longrightarrow> P (l' ! k)))"
        using "1.IH"(1) [OF less le call] p0 pi less el pre by simp
      from ih have ihlen: "length l' = length l" and ihmset: "mset l' = mset ?l1"
        and ihp: "p + 1 \<le> p'" "p' \<le> e"
        by simp_all
      from ih have ihle: "\<And>k. p + 1 \<le> int k \<Longrightarrow> int k < p' \<Longrightarrow> l' ! k \<le> pivot"
        and ihgt: "\<And>k. p' \<le> int k \<Longrightarrow> int k < e \<Longrightarrow> pivot < l' ! k"
        by blast+
      from ih have "\<forall>k < length ?l1. int k < p + 1 \<or> e \<le> int k \<longrightarrow> l' ! k = ?l1 ! k"
        by blast
      then have ihframe: "\<And>k. k < length l \<Longrightarrow> int k < p + 1 \<or> e \<le> int k \<Longrightarrow> l' ! k = ?l1 ! k"
        by (simp only: swap_length)
      from ih have ihP: "(\<forall>k. p + 1 \<le> int k \<and> int k < e \<longrightarrow> P (?l1 ! k)) \<Longrightarrow>
                  (\<And>k. p + 1 \<le> int k \<Longrightarrow> int k < e \<Longrightarrow> P (l' ! k))"
        by blast
      have atp: "l' ! nat p = l ! nat idx"
      proof -
        have "nat p < length l" using idx_l p0 by simp
        moreover have "int (nat p) < p + 1" using p0 by simp
        ultimately have "l' ! nat p = ?l1 ! nat p" using ihframe by blast
        also have "\<dots> = l ! nat idx" using nth1 [of "nat p"] idx_l p0 by simp
        finally show ?thesis .
      qed
      have c1: "length l' = length l" by (rule ihlen)
      have c2: "mset l' = mset l" using ihmset swap_mset [of idx p l] idx_l p0 by simp
      have c3: "p \<le> p'" "p' \<le> e" using ihp by simp_all
      have c4: "\<forall>k. p \<le> int k \<and> int k < p' \<longrightarrow> l' ! k \<le> pivot"
      proof (intro allI impI)
        fix k assume k: "p \<le> int k \<and> int k < p'"
        show "l' ! k \<le> pivot"
        proof (cases "int k = p")
          case True
          then have "k = nat p" by simp
          with atp le show ?thesis by simp
        next
          case False
          with k have "p + 1 \<le> int k" "int k < p'" by simp_all
          then show ?thesis by (rule ihle)
        qed
      qed
      have c5: "\<forall>k. p' \<le> int k \<and> int k < e \<longrightarrow> pivot < l' ! k" using ihgt by blast
      have c6: "\<forall>k < length l. int k < p \<or> e \<le> int k \<longrightarrow> l' ! k = l ! k"
      proof (intro allI impI)
        fix k assume kl: "k < length l" and k: "int k < p \<or> e \<le> int k"
        then have "int k < p + 1 \<or> e \<le> int k" by auto
        with kl have "l' ! k = ?l1 ! k" by (rule ihframe)
        also have "\<dots> = l ! k" using nth1 [OF kl] k pi less by auto
        finally show "l' ! k = l ! k" .
      qed
      have c7: "(\<forall>k. p \<le> int k \<and> int k < e \<longrightarrow> P (l ! k)) \<longrightarrow>
          (\<forall>k. p \<le> int k \<and> int k < e \<longrightarrow> P (l' ! k))"
      proof (intro allI impI)
        fix k assume all: "\<forall>k. p \<le> int k \<and> int k < e \<longrightarrow> P (l ! k)" and k: "p \<le> int k \<and> int k < e"
        have Pidx: "P (l ! nat idx)" "P (l ! nat p)"
          using all [rule_format, of "nat idx"] all [rule_format, of "nat p"] pi less p0 by simp_all
        have all1: "\<forall>k. p + 1 \<le> int k \<and> int k < e \<longrightarrow> P (?l1 ! k)"
        proof (intro allI impI)
          fix j assume j: "p + 1 \<le> int j \<and> int j < e"
          then have "j < length l" using el by simp
          from nth1 [OF this] all j Pidx show "P (?l1 ! j)" by simp
        qed
        show "P (l' ! k)"
        proof (cases "int k = p")
          case True
          then have "k = nat p" by simp
          with atp Pidx show ?thesis by simp
        next
          case False
          with k have "p + 1 \<le> int k" "int k < e" by simp_all
          then show ?thesis by (rule ihP [OF all1])
        qed
      qed
      from c1 c2 c3 c4 c5 c6 c7 show ?thesis by blast
    next
      case gt': False
      from less gt' eq
      have call: "partitionLoop l pivot (idx + 1) e p = (l', p')"
        by (simp add: partitionLoop.simps [of l pivot idx e p])
      have pre: "\<forall>k. p \<le> int k \<and> int k < idx + 1 \<longrightarrow> pivot < l ! k"
      proof (intro allI impI)
        fix k assume k: "p \<le> int k \<and> int k < idx + 1"
        show "pivot < l ! k"
        proof (cases "int k = idx")
          case True
          then have "k = nat idx" by simp
          with gt' show ?thesis by simp
        next
          case False
          with k gt show ?thesis by simp
        qed
      qed
      show ?thesis
        using "1.IH"(2) [OF less gt' call] p0 pi less el pre by simp
    qed
  qed
qed

lemma partition_js_spec:
  assumes "partition_js l s e = (l', p)" and "0 \<le> s" "s \<le> e" "e < int (length l)"
  shows "length l' = length l \<and> mset l' = mset l \<and> s \<le> p \<and> p \<le> e \<and>
    (\<forall>k. s \<le> int k \<and> int k < p \<longrightarrow> l' ! k \<le> l' ! nat p) \<and>
    (\<forall>k. p < int k \<and> int k \<le> e \<longrightarrow> l' ! nat p < l' ! k) \<and>
    (\<forall>k < length l. int k < s \<or> e < int k \<longrightarrow> l' ! k = l ! k) \<and>
    ((\<forall>k. s \<le> int k \<and> int k \<le> e \<longrightarrow> P (l ! k)) \<longrightarrow> (\<forall>k. s \<le> int k \<and> int k \<le> e \<longrightarrow> P (l' ! k)))"
proof -
  let ?pivot = "l ! nat e"
  obtain l1 where loop: "partitionLoop l ?pivot s e s = (l1, p)" and l': "l' = swap l1 p e"
    using assms(1) by (auto simp: partition_js_def split: prod.splits)
  have spec: "length l1 = length l \<and> mset l1 = mset l \<and> s \<le> p \<and> p \<le> e \<and>
    (\<forall>k. s \<le> int k \<and> int k < p \<longrightarrow> l1 ! k \<le> ?pivot) \<and>
    (\<forall>k. p \<le> int k \<and> int k < e \<longrightarrow> ?pivot < l1 ! k) \<and>
    (\<forall>k < length l. int k < s \<or> e \<le> int k \<longrightarrow> l1 ! k = l ! k) \<and>
    ((\<forall>k. s \<le> int k \<and> int k < e \<longrightarrow> P (l ! k)) \<longrightarrow> (\<forall>k. s \<le> int k \<and> int k < e \<longrightarrow> P (l1 ! k)))"
    using partitionLoop_spec [OF loop, of P] assms(2-4) by simp
  from spec have len1: "length l1 = length l" and mset1: "mset l1 = mset l"
    and sp: "s \<le> p" and pe: "p \<le> e"
    by simp_all
  from spec have le1: "\<And>k. s \<le> int k \<Longrightarrow> int k < p \<Longrightarrow> l1 ! k \<le> ?pivot"
    and gt1: "\<And>k. p \<le> int k \<Longrightarrow> int k < e \<Longrightarrow> ?pivot < l1 ! k"
    and frame1: "\<And>k. k < length l \<Longrightarrow> int k < s \<or> e \<le> int k \<Longrightarrow> l1 ! k = l ! k"
    and P1: "(\<forall>k. s \<le> int k \<and> int k < e \<longrightarrow> P (l ! k)) \<Longrightarrow>
             (\<And>k. s \<le> int k \<Longrightarrow> int k < e \<Longrightarrow> P (l1 ! k))"
    by blast+
  have bounds: "0 \<le> p" "0 \<le> e" "p < int (length l1)" "e < int (length l1)"
    using assms(2-4) sp pe len1 by simp_all
  have nth': "\<And>k. k < length l \<Longrightarrow>
      l' ! k = (if int k = e then l1 ! nat p else if int k = p then l1 ! nat e else l1 ! k)"
    unfolding l' using swap_nth [of p e l1] bounds len1 by simp
  have ate: "l1 ! nat e = ?pivot"
    using frame1 [of "nat e"] assms(2-4) by simp
  have atp: "l' ! nat p = ?pivot"
    using nth' [of "nat p"] bounds len1 ate by auto
  have c4: "\<forall>k. s \<le> int k \<and> int k < p \<longrightarrow> l' ! k \<le> l' ! nat p"
  proof (intro allI impI)
    fix k assume k: "s \<le> int k \<and> int k < p"
    then have "k < length l" using bounds len1 by simp
    from nth' [OF this] k pe have "l' ! k = l1 ! k" by simp
    with le1 [of k] k atp show "l' ! k \<le> l' ! nat p" by simp
  qed
  have c5: "\<forall>k. p < int k \<and> int k \<le> e \<longrightarrow> l' ! nat p < l' ! k"
  proof (intro allI impI)
    fix k assume k: "p < int k \<and> int k \<le> e"
    then have kl: "k < length l" using bounds len1 by simp
    show "l' ! nat p < l' ! k"
    proof (cases "int k = e")
      case True
      with nth' [OF kl] have "l' ! k = l1 ! nat p" by simp
      moreover have "?pivot < l1 ! nat p" using gt1 [of "nat p"] bounds k True by simp
      ultimately show ?thesis using atp by simp
    next
      case False
      with nth' [OF kl] k have "l' ! k = l1 ! k" by simp
      moreover have "?pivot < l1 ! k" using gt1 [of k] k False by simp
      ultimately show ?thesis using atp by simp
    qed
  qed
  have c6: "\<forall>k < length l. int k < s \<or> e < int k \<longrightarrow> l' ! k = l ! k"
  proof (intro allI impI)
    fix k assume kl: "k < length l" and k: "int k < s \<or> e < int k"
    with nth' [OF kl] sp pe have "l' ! k = l1 ! k" by auto
    also have "\<dots> = l ! k" using frame1 [OF kl] k by auto
    finally show "l' ! k = l ! k" .
  qed
  have c7: "(\<forall>k. s \<le> int k \<and> int k \<le> e \<longrightarrow> P (l ! k)) \<longrightarrow>
      (\<forall>k. s \<le> int k \<and> int k \<le> e \<longrightarrow> P (l' ! k))"
  proof (intro allI impI)
    fix k assume all: "\<forall>k. s \<le> int k \<and> int k \<le> e \<longrightarrow> P (l ! k)" and k: "s \<le> int k \<and> int k \<le> e"
    then have kl: "k < length l" using assms(4) by simp
    have "\<forall>k. s \<le> int k \<and> int k < e \<longrightarrow> P (l ! k)" using all by simp
    note inner = P1 [OF this]
    have Pe: "P (l1 ! nat e)" using ate all [rule_format, of "nat e"] assms(2,3) by simp
    have Pin: "\<And>j. s \<le> int j \<Longrightarrow> int j \<le> e \<Longrightarrow> P (l1 ! j)"
    proof -
      fix j assume j: "s \<le> int j" "int j \<le> e"
      show "P (l1 ! j)"
      proof (cases "int j = e")
        case True
        then have "j = nat e" by simp
        with Pe show ?thesis by simp
      next
        case False
        with j inner [of j] show ?thesis by simp
      qed
    qed
    have "P (l1 ! nat p)" using Pin [of "nat p"] sp pe bounds by simp
    with nth' [OF kl] Pe Pin [of k] k show "P (l' ! k)" by simp
  qed
  have "mset l' = mset l"
    unfolding l' using swap_mset [of p e l1] bounds mset1 by simp
  moreover have "length l' = length l" unfolding l' using len1 by simp
  ultimately show ?thesis using sp pe c4 c5 c6 c7 by blast
qed

lemma quickSort_frame:
  "0 \<le> s \<Longrightarrow> e < int (length l) \<Longrightarrow>
   length (quickSort l s e) = length l \<and> mset (quickSort l s e) = mset l \<and>
   (\<forall>k < length l. int k < s \<or> e < int k \<longrightarrow> quickSort l s e ! k = l ! k) \<and>
   ((\<forall>k. s \<le> int k \<and> int k \<le> e \<longrightarrow> P (l ! k)) \<longrightarrow>
    (\<forall>k. s \<le> int k \<and> int k \<le> e \<longrightarrow> P (quickSort l s e ! k)))"
proof (induction l s e rule: quickSort.induct)
  case (1 l s e)
  show ?case
  proof (cases "e \<le> s")
    case True
    then show ?thesis by (simp add: quickSort.simps [of l s e])
  next
    case False
    obtain l1 p where part: "partition_js l s e = (l1, p)" by (cases "partition_js l s e")
    let ?q1 = "quickSort l1 s (p - 1)"
    let ?q2 = "quickSort ?q1 (p + 1) e"
    have q: "quickSort l s e = ?q2"
      using False part by (simp add: quickSort.simps [of l s e])
    have se: "s \<le> e" using False by simp
    note spec = partition_js_spec [OF part "1.prems"(1) se "1.prems"(2), of P]
    from spec have len1: "length l1 = length l" and mset1: "mset l1 = mset l"
      and sp: "s \<le> p" and pe: "p \<le> e"
      by simp_all
    from spec have frame1: "\<And>k. k < length l \<Longrightarrow> int k < s \<or> e < int k \<Longrightarrow> l1 ! k = l ! k"
      and P1: "(\<forall>k. s \<le> int k \<and> int k \<le> e \<longrightarrow> P (l ! k)) \<Longrightarrow>
               (\<And>k. s \<le> int k \<Longrightarrow> int k \<le> e \<Longrightarrow> P (l1 ! k))"
      by blast+
    have pre1: "p - 1 < int (length l1)" using pe "1.prems"(2) len1 by simp
    note ih1 = "1.IH"(1) [OF False part [symmetric] "1.prems"(1) pre1]
    from ih1 have len2: "length ?q1 = length l" and mset2: "mset ?q1 = mset l"
      using len1 mset1 by simp_all
    from ih1 have "\<forall>k < length l1. int k < s \<or> p - 1 < int k \<longrightarrow> ?q1 ! k = l1 ! k"
      by blast
    then have frame2: "\<And>k. k < length l \<Longrightarrow> int k < s \<or> p - 1 < int k \<Longrightarrow> ?q1 ! k = l1 ! k"
      by (simp only: len1)
    from ih1 have P2: "(\<forall>k. s \<le> int k \<and> int k \<le> p - 1 \<longrightarrow> P (l1 ! k)) \<Longrightarrow>
               (\<And>k. s \<le> int k \<Longrightarrow> int k \<le> p - 1 \<Longrightarrow> P (?q1 ! k))"
      by blast
    have pre2: "0 \<le> p + 1" "e < int (length ?q1)"
      using sp "1.prems" len2 by simp_all
    note ih2 = "1.IH"(2) [OF False part [symmetric] pre2]
    from ih2 have len3: "length ?q2 = length l" and mset3: "mset ?q2 = mset l"
      using len2 mset2 by simp_all
    from ih2 have "\<forall>k < length ?q1. int k < p + 1 \<or> e < int k \<longrightarrow> ?q2 ! k = ?q1 ! k"
      by blast
    then have frame3: "\<And>k. k < length l \<Longrightarrow> int k < p + 1 \<or> e < int k \<Longrightarrow> ?q2 ! k = ?q1 ! k"
      by (simp only: len2)
    from ih2 have P3: "(\<forall>k. p + 1 \<le> int k \<and> int k \<le> e \<longrightarrow> P (?q1 ! k)) \<Longrightarrow>
               (\<And>k. p + 1 \<le> int k \<Longrightarrow> int k \<le> e \<Longrightarrow> P (?q2 ! k))"
      by blast
    have c3: "\<forall>k < length l. int k < s \<or> e < int k \<longrightarrow> ?q2 ! k = l ! k"
    proof (intro allI impI)
      fix k assume kl: "k < length l" and k: "int k < s \<or> e < int k"
      have "?q2 ! k = ?q1 ! k" using frame3 [OF kl] k sp by auto
      also have "\<dots> = l1 ! k" using frame2 [OF kl] k pe by auto
      also have "\<dots> = l ! k" using frame1 [OF kl] k by auto
      finally show "?q2 ! k = l ! k" .
    qed
    have c4: "(\<forall>k. s \<le> int k \<and> int k \<le> e \<longrightarrow> P (l ! k)) \<longrightarrow>
        (\<forall>k. s \<le> int k \<and> int k \<le> e \<longrightarrow> P (?q2 ! k))"
    proof (intro allI impI)
      fix k assume all: "\<forall>k. s \<le> int k \<and> int k \<le> e \<longrightarrow> P (l ! k)" and k: "s \<le> int k \<and> int k \<le> e"
      note Pl1 = P1 [OF all]
      have "\<forall>k. s \<le> int k \<and> int k \<le> p - 1 \<longrightarrow> P (l1 ! k)" using Pl1 pe by simp
      note Pq1low = P2 [OF this]
      have Pq1: "\<And>j. s \<le> int j \<Longrightarrow> int j \<le> e \<Longrightarrow> P (?q1 ! j)"
      proof -
        fix j assume j: "s \<le> int j" "int j \<le> e"
        then have jl: "j < length l" using "1.prems"(2) by simp
        show "P (?q1 ! j)"
        proof (cases "int j \<le> p - 1")
          case True
          with j Pq1low show ?thesis by simp
        next
          case False
          then have "?q1 ! j = l1 ! j" using frame2 [OF jl] by simp
          with Pl1 [of j] j show ?thesis by simp
        qed
      qed
      have "\<forall>k. p + 1 \<le> int k \<and> int k \<le> e \<longrightarrow> P (?q1 ! k)" using Pq1 sp by simp
      note Pq2high = P3 [OF this]
      from k have kl: "k < length l" using "1.prems"(2) by simp
      show "P (?q2 ! k)"
      proof (cases "p + 1 \<le> int k")
        case True
        with k Pq2high show ?thesis by simp
      next
        case False
        then have "?q2 ! k = ?q1 ! k" using frame3 [OF kl] by simp
        with Pq1 [of k] k show ?thesis by simp
      qed
    qed
    from len3 mset3 c3 c4 show ?thesis unfolding q by blast
  qed
qed

lemma quickSort_sorted:
  "0 \<le> s \<Longrightarrow> e < int (length l) \<Longrightarrow>
   \<forall>i j. s \<le> int i \<and> i \<le> j \<and> int j \<le> e \<longrightarrow> quickSort l s e ! i \<le> quickSort l s e ! j"
proof (induction l s e rule: quickSort.induct)
  case (1 l s e)
  show ?case
  proof (cases "e \<le> s")
    case True
    have "\<And>i j. s \<le> int i \<Longrightarrow> i \<le> j \<Longrightarrow> int j \<le> e \<Longrightarrow> i = j"
      using True by simp
    then show ?thesis by (auto simp: quickSort.simps [of l s e])
  next
    case False
    obtain l1 p where part: "partition_js l s e = (l1, p)" by (cases "partition_js l s e")
    let ?q1 = "quickSort l1 s (p - 1)"
    let ?q2 = "quickSort ?q1 (p + 1) e"
    let ?pivot = "l1 ! nat p"
    have q: "quickSort l s e = ?q2"
      using False part by (simp add: quickSort.simps [of l s e])
    have se: "s \<le> e" using False by simp
    note spec = partition_js_spec [OF part "1.prems"(1) se "1.prems"(2), of "\<lambda>x. True"]
    from spec have len1: "length l1 = length l" and sp: "s \<le> p" and pe: "p \<le> e"
      by simp_all
    from spec have low1: "\<forall>k. s \<le> int k \<and> int k \<le> p - 1 \<longrightarrow> l1 ! k \<le> ?pivot"
      and high1: "\<And>k. p < int k \<Longrightarrow> int k \<le> e \<Longrightarrow> ?pivot < l1 ! k"
      by simp_all
    have pre1: "p - 1 < int (length l1)" using pe "1.prems"(2) len1 by simp
    note f1 = quickSort_frame [OF "1.prems"(1) pre1, of "\<lambda>x. x \<le> ?pivot"]
    from f1 have len2: "length ?q1 = length l" using len1 by simp
    from f1 have "\<forall>k < length l1. int k < s \<or> p - 1 < int k \<longrightarrow> ?q1 ! k = l1 ! k" by blast
    then have frame2: "\<And>k. k < length l \<Longrightarrow> int k < s \<or> p - 1 < int k \<Longrightarrow> ?q1 ! k = l1 ! k"
      by (simp only: len1)
    from f1 low1 have low2: "\<And>k. s \<le> int k \<Longrightarrow> int k \<le> p - 1 \<Longrightarrow> ?q1 ! k \<le> ?pivot"
      by blast
    have pre2: "0 \<le> p + 1" "e < int (length ?q1)"
      using sp "1.prems" len2 by simp_all
    have high2: "\<forall>k. p + 1 \<le> int k \<and> int k \<le> e \<longrightarrow> ?pivot < ?q1 ! k"
    proof (intro allI impI)
      fix k assume k: "p + 1 \<le> int k \<and> int k \<le> e"
      then have "k < length l" using "1.prems"(2) by simp
      from frame2 [OF this] k have "?q1 ! k = l1 ! k" by simp
      with high1 [of k] k show "?pivot < ?q1 ! k" by simp
    qed
    note f2 = quickSort_frame [OF pre2, of "\<lambda>x. ?pivot < x"]
    from f2 have "\<forall>k < length ?q1. int k < p + 1 \<or> e < int k \<longrightarrow> ?q2 ! k = ?q1 ! k" by blast
    then have frame3: "\<And>k. k < length l \<Longrightarrow> int k < p + 1 \<or> e < int k \<Longrightarrow> ?q2 ! k = ?q1 ! k"
      by (simp only: len2)
    from f2 high2 have high3: "\<And>k. p + 1 \<le> int k \<Longrightarrow> int k \<le> e \<Longrightarrow> ?pivot < ?q2 ! k"
      by blast
    note ih1 = "1.IH"(1) [OF False part [symmetric] "1.prems"(1) pre1]
    note ih2 = "1.IH"(2) [OF False part [symmetric] pre2]
    have lowq2: "\<And>k. s \<le> int k \<Longrightarrow> int k \<le> p - 1 \<Longrightarrow> ?q2 ! k = ?q1 ! k"
    proof -
      fix k assume k: "s \<le> int k" "int k \<le> p - 1"
      then have "k < length l" using pe "1.prems"(2) by simp
      from frame3 [OF this] k show "?q2 ! k = ?q1 ! k" by simp
    qed
    have atp: "?q2 ! nat p = ?pivot"
    proof -
      have pl: "nat p < length l" using sp pe "1.prems" by simp
      have "?q2 ! nat p = ?q1 ! nat p" using frame3 [OF pl] sp "1.prems"(1) by simp
      also have "\<dots> = ?pivot" using frame2 [OF pl] sp "1.prems"(1) by simp
      finally show ?thesis .
    qed
    have "\<forall>i j. s \<le> int i \<and> i \<le> j \<and> int j \<le> e \<longrightarrow> ?q2 ! i \<le> ?q2 ! j"
    proof (intro allI impI)
      fix i j assume ij: "s \<le> int i \<and> i \<le> j \<and> int j \<le> e"
      consider (low) "int j \<le> p - 1" | (high) "p + 1 \<le> int i"
        | (ip) "int i = p" | (jp) "int i \<le> p - 1" "int j = p"
        | (cross) "int i \<le> p - 1" "p + 1 \<le> int j"
        by linarith
      then show "?q2 ! i \<le> ?q2 ! j"
      proof cases
        case low
        with ij have i: "s \<le> int i" "int i \<le> p - 1" and j: "s \<le> int j" "int j \<le> p - 1"
          by simp_all
        have "?q1 ! i \<le> ?q1 ! j" using ih1 ij low by blast
        then show ?thesis using lowq2 [OF i] lowq2 [OF j] by simp
      next
        case high
        with ij show ?thesis using ih2 by simp
      next
        case ip
        then have i: "i = nat p" by simp
        show ?thesis
        proof (cases "j = i")
          case True
          then show ?thesis by simp
        next
          case False
          with ij ip have "p + 1 \<le> int j" "int j \<le> e" by simp_all
          from high3 [OF this] atp i show ?thesis by simp
        qed
      next
        case jp
        then have j: "j = nat p" by simp
        from jp ij have "?q2 ! i = ?q1 ! i" using lowq2 [of i] by simp
        moreover have "?q1 ! i \<le> ?pivot" using low2 [of i] ij jp by simp
        ultimately show ?thesis using atp j by simp
      next
        case cross
        from cross ij have "?q2 ! i = ?q1 ! i" using lowq2 [of i] by simp
        moreover have "?q1 ! i \<le> ?pivot" using low2 [of i] ij cross by simp
        moreover have "?pivot < ?q2 ! j" using high3 [of j] ij cross by simp
        ultimately show ?thesis by simp
      qed
    qed
    then show ?thesis unfolding q .
  qed
qed

lemma quickSort_sort: "quickSort l 0 (int (length l) - 1) = sort l"
proof -
  let ?q = "quickSort l 0 (int (length l) - 1)"
  have pre: "(0::int) \<le> 0" "int (length l) - 1 < int (length l)" by simp_all
  from quickSort_frame [OF pre, of "\<lambda>x. True"]
  have len: "length ?q = length l" and ms: "mset ?q = mset l" by simp_all
  have "sorted ?q"
    unfolding sorted_iff_nth_mono
  proof (intro allI impI)
    fix i j assume "i \<le> j" "j < length ?q"
    then have "0 \<le> int i \<and> i \<le> j \<and> int j \<le> int (length l) - 1" using len by simp
    with quickSort_sorted [OF pre] show "?q ! i \<le> ?q ! j" by blast
  qed
  with ms show ?thesis by (simp add: properties_for_sort)
qed

lemma groupLoop_spec:
  assumes "distinct na" and "set na = count ` set seen"
    and "\<And>k. cm k = (if k \<in> set na then Some (filter (\<lambda>x. count x = k) seen) else None)"
  shows "\<exists>na' cm'. groupLoop logs (na, cm) = Inr (na', cm') \<and> distinct na' \<and>
           set na' = count ` set (seen @ logs) \<and>
           (\<forall>k \<in> set na'. cm' k = Some (filter (\<lambda>x. count x = k) (seen @ logs)))"
  using assms
proof (induction logs arbitrary: na cm seen)
  case Nil
  then show ?case by simp
next
  case (Cons log rest)
  show ?case
  proof (cases "count log \<in> set na")
    case False
    let ?na = "na @ [count log]" and ?cm = "cm(count log \<mapsto> [log])"
    have none: "filter (\<lambda>x. count x = count log) seen = []"
      using False Cons.prems(2) by (auto simp: filter_empty_conv intro: rev_image_eqI)
    have "distinct ?na" using False Cons.prems(1) by simp
    moreover have "set ?na = count ` set (seen @ [log])" using Cons.prems(2) by auto
    moreover have "\<And>k. ?cm k =
        (if k \<in> set ?na then Some (filter (\<lambda>x. count x = k) (seen @ [log])) else None)"
      using Cons.prems(3) none by auto
    ultimately obtain na' cm' where "groupLoop rest (?na, ?cm) = Inr (na', cm')" "distinct na'"
      "set na' = count ` set ((seen @ [log]) @ rest)"
      "\<forall>k \<in> set na'. cm' k = Some (filter (\<lambda>x. count x = k) ((seen @ [log]) @ rest))"
      using Cons.IH [of ?na "seen @ [log]" ?cm] by blast
    with False show ?thesis by simp
  next
    case True
    let ?bucket = "filter (\<lambda>x. count x = count log) seen"
    let ?cm = "cm(count log \<mapsto> ?bucket @ [log])"
    from True Cons.prems(3) have look: "cm (count log) = Some ?bucket" by simp
    have "set na = count ` set (seen @ [log])" using Cons.prems(2) True by auto
    moreover have "\<And>k. ?cm k =
        (if k \<in> set na then Some (filter (\<lambda>x. count x = k) (seen @ [log])) else None)"
      using Cons.prems(3) True by auto
    ultimately obtain na' cm' where "groupLoop rest (na, ?cm) = Inr (na', cm')" "distinct na'"
      "set na' = count ` set ((seen @ [log]) @ rest)"
      "\<forall>k \<in> set na'. cm' k = Some (filter (\<lambda>x. count x = k) ((seen @ [log]) @ rest))"
      using Cons.IH [of na "seen @ [log]" ?cm] Cons.prems(1) by blast
    with True look show ?thesis by simp
  qed
qed

lemma concatLoop_spec:
  "(\<And>k. k \<in> set ks \<Longrightarrow> cm k = Some (b k)) \<Longrightarrow>
   concatLoop ks cm acc = Inr (acc @ concat (map b ks))"
  by (induction ks arbitrary: acc) simp_all

lemma mset_buckets:
  "distinct ks \<Longrightarrow>
   mset (concat (map (\<lambda>k. filter (\<lambda>x. f x = k) xs) ks)) = mset (filter (\<lambda>x. f x \<in> set ks) xs)"
proof (induction ks)
  case Nil
  then show ?case by simp
next
  case (Cons k ks)
  have "mset (filter (\<lambda>x. f x = k) xs) + mset (filter (\<lambda>x. f x \<in> set ks) xs) =
      mset (filter (\<lambda>x. f x \<in> set (k # ks)) xs)"
    using Cons.prems by (induction xs) auto
  with Cons show ?case by simp
qed

lemma sorted_buckets:
  "sorted ks \<Longrightarrow> sorted (map f (concat (map (\<lambda>k. filter (\<lambda>x. f x = k) xs) ks)))"
proof (induction ks)
  case Nil
  then show ?case by simp
next
  case (Cons k ks)
  have "sorted (map f (filter (\<lambda>x. f x = k) xs))"
    by (induction xs) (auto simp: sorted_map)
  moreover have "sorted (map f (concat (map (\<lambda>k. filter (\<lambda>x. f x = k) xs) ks)))"
    using Cons by simp
  ultimately show ?case using Cons.prems by (auto simp: sorted_append)
qed

lemma filter_buckets:
  "distinct ks \<Longrightarrow> c \<in> set ks \<Longrightarrow>
   filter (\<lambda>x. c = f x) (concat (map (\<lambda>k. filter (\<lambda>x. f x = k) xs) ks)) = filter (\<lambda>x. c = f x) xs"
proof (induction ks)
  case Nil
  then show ?case by simp
next
  case (Cons k ks)
  have other: "\<And>ks'. c \<notin> set ks' \<Longrightarrow>
      filter (\<lambda>x. c = f x) (concat (map (\<lambda>k. filter (\<lambda>x. f x = k) xs) ks')) = []"
    by (auto simp: filter_empty_conv)
  show ?case
  proof (cases "c = k")
    case True
    then have "c \<notin> set ks" using Cons.prems by simp
    from other [OF this] True show ?thesis
      by (simp add: eq_commute [of "f _" k] cong: filter_cong)
  next
    case False
    then have "filter (\<lambda>x. c = f x) (filter (\<lambda>x. f x = k) xs) = []"
      by (auto simp: filter_empty_conv)
    with False Cons show ?thesis by simp
  qed
qed

lemma buckets_sort_key:
  assumes "distinct ks" "sorted ks" "set ks = f ` set xs"
  shows "concat (map (\<lambda>k. filter (\<lambda>x. f x = k) xs) ks) = sort_key f xs"
proof (rule properties_for_sort_key [symmetric])
  let ?ys = "concat (map (\<lambda>k. filter (\<lambda>x. f x = k) xs) ks)"
  have "filter (\<lambda>x. f x \<in> set ks) xs = xs" using assms(3) by (auto simp: filter_id_conv)
  with mset_buckets [OF assms(1), of f xs] show ms: "mset ?ys = mset xs" by simp
  show "sorted (map f ?ys)" using assms(2) by (rule sorted_buckets)
  fix y assume "y \<in> set ?ys"
  then have "y \<in> set xs" using ms by (metis set_mset_mset)
  then have "f y \<in> set ks" using assms(3) by simp
  with assms(1) show "filter (\<lambda>x. f y = f x) ?ys = filter (\<lambda>x. f y = f x) xs"
    by (rule filter_buckets)
qed

lemma debugString_nonempty: "logs \<noteq> [] \<Longrightarrow> \<exists>d. debugString logs = Inr d"
  by (cases logs) (simp_all add: debugString_def reduceNoInit_def)

lemma sortLogsByCount_nonempty:
  assumes "logs \<noteq> []"
  shows "sortLogsByCount logs = Inr (sort_key count logs)"
proof -
  obtain na cm where grp: "groupLoop logs ([], Map.empty) = Inr (na, cm)" and d: "distinct na"
    and s: "set na = count ` set logs"
    and b: "\<forall>k \<in> set na. cm k = Some (filter (\<lambda>x. count x = k) logs)"
    using groupLoop_spec [of "[]" "[]" Map.empty logs] by auto
  let ?ks = "quickSort na 0 (int (length na) - 1)"
  have ks: "?ks = sort na" by (rule quickSort_sort)
  have "concatLoop ?ks cm [] = Inr ([] @ concat (map (\<lambda>k. filter (\<lambda>x. count x = k) logs) ?ks))"
    using b by (intro concatLoop_spec) (simp add: ks)
  also have "concat (map (\<lambda>k. filter (\<lambda>x. count x = k) logs) ?ks) = sort_key count logs"
    using d s by (intro buckets_sort_key) (simp_all add: ks)
  finally have cat: "concatLoop ?ks cm [] = Inr (sort_key count logs)" by simp
  from debugString_nonempty [OF assms] obtain dbg where "debugString logs = Inr dbg" ..
  with grp cat show ?thesis by (simp add: sortLogsByCount_def)
qed

lemma parseText_report_nonempty:
  assumes "parseText settings input fileName logData = Inr (r, d)"
  shows "uniqueList r \<noteq> []"
proof -
  from assms obtain ma where ma: "matchLogRegex input = Some ma"
    and res0: "processParsedLog settings (map parseLine ma) fileName logData = Inr (r, d)"
    by (auto simp: parseText_def split: option.splits)
  from ma have "ma \<noteq> []"
    by (auto simp: matchLogRegex_def split: list.splits)
  then obtain m ms where "ma = m # ms" by (cases ma) auto
  with res0 have
    res: "processParsedLog settings (map parseLine (m # ms)) fileName logData = Inr (r, d)"
    by simp
  have "fold foldUnique (map parseLine (m # ms)) ul \<noteq> []" for ul
    by (simp add: fold_foldUnique_nonempty foldUnique_nonempty)
  with processParsedLog_Inr(1) [OF res] show ?thesis by simp
qed

lemma parseLoop_lists_nonempty:
  assumes "parseLoop settings world textContent fileList logData = Inr parsed"
    and "list_all (\<lambda>data. uniqueList data \<noteq> []) (dataList logData)"
    and "fileList = [] \<longrightarrow> consolidate settings \<longrightarrow> uniqueList logData \<noteq> []"
  shows "list_all (\<lambda>data. uniqueList data \<noteq> []) (dataList parsed) \<and>
         (consolidate settings \<longrightarrow> uniqueList parsed \<noteq> [])"
  using assms
proof (induction fileList arbitrary: logData)
  case Nil
  then show ?case by simp
next
  case (Cons fileName rest)
  from Cons.prems(1) obtain input r d where
    parse: "parseText settings input (Some fileName) logData = Inr (r, d)"
    and loop: "parseLoop settings world textContent rest d = Inr parsed"
    by (auto simp: loggerError_def split: if_splits option.splits sum.splits)
  from parse obtain ms where
    res: "processParsedLog settings ms (Some fileName) logData = Inr (r, d)"
    by (auto simp: parseText_def split: option.splits)
  have r: "uniqueList r \<noteq> []" using parse by (rule parseText_report_nonempty)
  have dl: "list_all (\<lambda>data. uniqueList data \<noteq> []) (dataList d)"
    using processParsedLog_Inr(3,4) [OF res] Cons.prems(2) r
    by (cases "consolidate settings") simp_all
  have "consolidate settings \<longrightarrow> uniqueList d \<noteq> []"
    using processParsedLog_Inr(3) [OF res] r by simp
  then have "rest = [] \<longrightarrow> consolidate settings \<longrightarrow> uniqueList d \<noteq> []" by simp
  from Cons.IH [OF loop dl this] show ?case .
qed

lemma sortDataList_nonempty:
  "list_all (\<lambda>data. uniqueList data \<noteq> []) dl \<Longrightarrow>
   sortDataList dl = Inr (map (\<lambda>data. data \<lparr> uniqueList := sort_key count (uniqueList data) \<rparr>) dl)"
  by (induction dl) (simp_all add: sortLogsByCount_nonempty)

lemma run_sorts_nonempty_lists:
  assumes "fileList \<noteq> []"
    and "parseLoop settings world textContent fileList initialLogData = Inr parsed"
  shows "if consolidate settings
         then sortLogsByCount (uniqueList parsed) = Inr (sort_key count (uniqueList parsed))
         else sortDataList (dataList parsed) =
                Inr (map (\<lambda>data. data \<lparr> uniqueList := sort_key count (uniqueList data) \<rparr>)
                      (dataList parsed))"
proof -
  have "list_all (\<lambda>data. uniqueList data \<noteq> []) (dataList initialLogData)"
    by (simp add: initialLogData_def)
  from parseLoop_lists_nonempty [OF assms(2) this] assms(1)
  have "list_all (\<lambda>data. uniqueList data \<noteq> []) (dataList parsed)"
    and "consolidate settings \<longrightarrow> uniqueList parsed \<noteq> []"
    by simp_all
  then show ?thesis
    by (simp add: sortLogsByCount_nonempty sortDataList_nonempty)
qed




end
